theory Spec2Isabelle
  imports Main
begin

unbundle bit_operations_syntax

section \<open>Machine arithmetic\<close>

text \<open>
  \<^verbatim>\<open>std::size_t\<close> is a 64-bit unsigned integer.  Values are modelled as \<^typ>\<open>nat\<close>; where the
  source can wrap around (the index arithmetic of the probing policies, the shift of
  \<^verbatim>\<open>optimal_size\<close>, the decrement of \<^verbatim>\<open>size_\<close>) the reduction modulo \<open>2 ^ 64\<close> is written out.
  The increments of the counters \<^verbatim>\<open>size_\<close> and \<^verbatim>\<open>cells_cnt_\<close> wrap as well.  The counter of the loop
  in \<^verbatim>\<open>erase(key)\<close> is incremented at most once per slot and is a plain addition.
\<close>

definition size_t_mod :: nat where
  "size_t_mod = 2 ^ 64"

text \<open>
  \<^verbatim>\<open>max_load_factor_\<close> is the \<^verbatim>\<open>float\<close> constant 0.5, and every expression that mixes it with a
  \<^verbatim>\<open>size_t\<close> converts the integer to \<^verbatim>\<open>float\<close> first.  A binary32 float has a 24-bit significand:
  integers below \<open>2 ^ 24\<close> convert exactly, larger ones are rounded to the nearest multiple of
  \<open>2 ^ e\<close> (ties to the even significand), where \<open>e\<close> is the number of low bits that do not fit.
  The result is always an integer, so it is kept as a \<^typ>\<open>nat\<close>.  Multiplying and dividing a
  float by 0.5 is exact.
\<close>

function float_exp :: "nat \<Rightarrow> nat" where
  "float_exp n = (if n < 2 ^ 24 then 0 else Suc (float_exp (n div 2)))"
  by pat_completeness auto
termination
  by (relation "measure (\<lambda>n. n)") auto

declare float_exp.simps [simp del]

definition to_float :: "nat \<Rightarrow> nat" where
  "to_float n =
     (let e = float_exp n; q = n div 2 ^ e; r = n mod 2 ^ e
      in if e = 0 then n
         else (if 2 ^ e < 2 * r \<or> (2 * r = 2 ^ e \<and> odd q) then q + 1 else q) * 2 ^ e)"

text \<open>\<^verbatim>\<open>n / max_load_factor_\<close> for a \<^verbatim>\<open>size_t n\<close>, converted back to \<^verbatim>\<open>size_t\<close>.\<close>

definition div_max_load_factor :: "nat \<Rightarrow> nat" where
  "div_max_load_factor n = 2 * to_float n"

text \<open>\<^verbatim>\<open>c > max_load_factor_ * b\<close> for \<^verbatim>\<open>size_t\<close> values \<open>c\<close> and \<open>b\<close>: both sides doubled.\<close>

definition exceeds_max_load :: "nat \<Rightarrow> nat \<Rightarrow> bool" where
  "exceeds_max_load c b \<longleftrightarrow> to_float b < 2 * to_float c"

section \<open>Probing policies (policy.h)\<close>

record LinearProbing =
  lp_size :: nat
  currentIndex :: nat
  lp_start :: nat

definition LinearProbing_ctor :: "nat \<Rightarrow> nat \<Rightarrow> LinearProbing" where
  "LinearProbing_ctor sz st = \<lparr>lp_size = sz, currentIndex = 0, lp_start = st\<rparr>"

definition lp_deref :: "LinearProbing \<Rightarrow> nat" where
  "lp_deref p = ((lp_start p + currentIndex p) mod size_t_mod) mod lp_size p"

definition lp_incr :: "LinearProbing \<Rightarrow> LinearProbing" where
  "lp_incr p = p\<lparr>currentIndex := (currentIndex p + 1) mod size_t_mod\<rparr>"

record QuadraticProbing =
  qp_size :: nat
  currentBase :: nat
  qp_start :: nat

definition QuadraticProbing_ctor :: "nat \<Rightarrow> nat \<Rightarrow> QuadraticProbing" where
  "QuadraticProbing_ctor sz st = \<lparr>qp_size = sz, currentBase = 0, qp_start = st\<rparr>"

definition qp_deref :: "QuadraticProbing \<Rightarrow> nat" where
  "qp_deref p =
     ((qp_start p + (currentBase p * currentBase p) mod size_t_mod) mod size_t_mod) mod qp_size p"

definition qp_incr :: "QuadraticProbing \<Rightarrow> QuadraticProbing" where
  "qp_incr p = p\<lparr>currentBase := (currentBase p + 1) mod size_t_mod\<rparr>"

text \<open>
  The table is a template over its \<^verbatim>\<open>CollisionPolicy\<close>; the parameter is passed explicitly and
  the policy object of a probe loop is one of the two structs.
\<close>

datatype CollisionPolicy = Linear | Quadratic

datatype probe = LP LinearProbing | QP QuadraticProbing

fun CollisionPolicy_ctor :: "CollisionPolicy \<Rightarrow> nat \<Rightarrow> nat \<Rightarrow> probe" where
  "CollisionPolicy_ctor Linear sz st = LP (LinearProbing_ctor sz st)"
| "CollisionPolicy_ctor Quadratic sz st = QP (QuadraticProbing_ctor sz st)"

fun deref :: "probe \<Rightarrow> nat" where
  "deref (LP p) = lp_deref p"
| "deref (QP p) = qp_deref p"

fun incr :: "probe \<Rightarrow> probe" where
  "incr (LP p) = LP (lp_incr p)"
| "incr (QP p) = QP (qp_incr p)"

text \<open>
  The policy object after \<open>i\<close> applications of \<^verbatim>\<open>operator++\<close>, and the index it then yields:
  the \<open>i\<close>-th candidate of the probe sequence for a slot count and a start.
\<close>

fun advance :: "nat \<Rightarrow> probe \<Rightarrow> probe" where
  "advance 0 it = it"
| "advance (Suc i) it = advance i (incr it)"

definition candidate :: "CollisionPolicy \<Rightarrow> nat \<Rightarrow> nat \<Rightarrow> nat \<Rightarrow> nat" where
  "candidate pol sz st i = deref (advance i (CollisionPolicy_ctor pol sz st))"

section \<open>Slots and the table (hash_table.h)\<close>

text \<open>
  An \<^verbatim>\<open>Element\<close> is a type tag and an owning pointer that is non-null exactly when the tag is
  \<^verbatim>\<open>DATA\<close>: a tagged union.
\<close>

datatype 'v Element = FREE | DELETED | DATA 'v

fun is_FREE :: "'v Element \<Rightarrow> bool" where
  "is_FREE FREE = True"
| "is_FREE _ = False"

fun is_DATA :: "'v Element \<Rightarrow> bool" where
  "is_DATA (DATA v) = True"
| "is_DATA _ = False"

datatype error = DivisionByZero | OutOfRange

record ('k, 'v) HashTable =
  hash_m :: "'k \<Rightarrow> nat"
  equal_m :: "'k \<Rightarrow> 'k \<Rightarrow> bool"
  data_m :: "'v Element list"
  size_m :: nat
  cells_cnt_m :: nat
  key_from_value_m :: "'v \<Rightarrow> 'k"

definition bucket_count :: "('k, 'v) HashTable \<Rightarrow> nat" where
  "bucket_count t = length (data_m t)"

text \<open>
  \<^verbatim>\<open>optimal_size\<close>: the loop shifts \<open>k\<close> right until it meets a set bit of \<open>sz\<close>.  For \<open>sz = 0\<close> it
  never does, so the loop is a partial function and \<open>None\<close> stands for not returning.
\<close>

partial_function (option) optimal_size_loop :: "nat \<Rightarrow> nat \<Rightarrow> nat option" where
  "optimal_size_loop sz k =
     (if sz AND k = 0 then optimal_size_loop sz (k div 2) else Some k)"

declare optimal_size_loop.simps [code]

definition optimal_size :: "nat \<Rightarrow> nat option" where
  "optimal_size sz = map_option (\<lambda>k. (k * 2) mod size_t_mod) (optimal_size_loop sz (2 ^ 63))"

text \<open>The constructor taking the key projection, the expected size, the hash and the equality.\<close>

definition HashTable_ctor ::
  "('v \<Rightarrow> 'k) \<Rightarrow> nat \<Rightarrow> ('k \<Rightarrow> nat) \<Rightarrow> ('k \<Rightarrow> 'k \<Rightarrow> bool) \<Rightarrow> ('k, 'v) HashTable option" where
  "HashTable_ctor getKV expected_max_size hash equal =
     map_option
       (\<lambda>n. \<lparr>hash_m = hash, equal_m = equal, data_m = replicate n FREE, size_m = 0,
              cells_cnt_m = 0, key_from_value_m = getKV\<rparr>)
       (optimal_size (div_max_load_factor expected_max_size))"

definition clear :: "('k, 'v) HashTable \<Rightarrow> ('k, 'v) HashTable" where
  "clear t = t\<lparr>data_m := replicate 8 FREE, size_m := 0, cells_cnt_m := 0\<rparr>"

subsection \<open>The probe loop\<close>

text \<open>
  \<^verbatim>\<open>emplace\<close>, \<^verbatim>\<open>find\<close> and the private \<^verbatim>\<open>insert(Element&)\<close> run the same loop
  \<^verbatim>\<open>for (; data_[*it].type != FREE; ++it) if (data_[*it].type == DATA && equal_(key(data_[*it]), key)) return\<close>.
  It leaves either at a slot holding an equal key or at a \<^verbatim>\<open>FREE\<close> slot, and may never leave.
\<close>

fun holds_key :: "('k, 'v) HashTable \<Rightarrow> 'k \<Rightarrow> 'v Element \<Rightarrow> bool" where
  "holds_key t key (DATA v) = equal_m t (key_from_value_m t v) key"
| "holds_key t key _ = False"

datatype probe_result = Found nat | Vacant nat

partial_function (option) probe_loop ::
  "('k, 'v) HashTable \<Rightarrow> 'k \<Rightarrow> probe \<Rightarrow> probe_result option" where
  "probe_loop t key it =
     (if \<not> is_FREE (data_m t ! deref it)
      then (if holds_key t key (data_m t ! deref it) then Some (Found (deref it))
            else probe_loop t key (incr it))
      else Some (Vacant (deref it)))"

declare probe_loop.simps [code]

definition place :: "('k, 'v) HashTable \<Rightarrow> nat \<Rightarrow> 'v \<Rightarrow> ('k, 'v) HashTable" where
  "place t i v =
     t\<lparr>data_m := (data_m t)[i := DATA v], size_m := (size_m t + 1) mod size_t_mod,
       cells_cnt_m := (cells_cnt_m t + 1) mod size_t_mod\<rparr>"

subsection \<open>rehash, check_size and the private insert\<close>

text \<open>
  \<^verbatim>\<open>rehash\<close> re-inserts through \<^verbatim>\<open>insert(Element&)\<close>, which calls \<^verbatim>\<open>check_size\<close>, which calls
  \<^verbatim>\<open>rehash\<close>: the three functions and the loop over the old slot array are mutually recursive.
  They are one partial function over the kind of call; the source's functions are its
  instances below.  A remainder by a slot count of zero is the error \<open>DivisionByZero\<close>.
\<close>

datatype ('k, 'v) call =
  Rehash nat "('k, 'v) HashTable"
| CheckSize "('k, 'v) HashTable"
| InsertElement 'v "('k, 'v) HashTable"
| Reinsert "'v Element list" "('k, 'v) HashTable"

partial_function (option) engine ::
  "CollisionPolicy \<Rightarrow> ('k, 'v) call \<Rightarrow> (error + ('k, 'v) HashTable) option" where
  "engine pol c =
     (case c of
        Rehash count t \<Rightarrow>
          if count = bucket_count t then Some (Inr t)
          else
            let count' = (if to_float count < div_max_load_factor (size_m t)
                          then div_max_load_factor (size_m t) else count)
            in engine pol (Reinsert (data_m t)
                 (t\<lparr>data_m := replicate count' FREE, size_m := 0, cells_cnt_m := 0\<rparr>))
      | Reinsert old t \<Rightarrow>
          (case old of
             [] \<Rightarrow> Some (Inr t)
           | el # rest \<Rightarrow>
               (case el of
                  DATA v \<Rightarrow>
                    Option.bind (engine pol (InsertElement v t))
                      (\<lambda>r. case r of Inl e \<Rightarrow> Some (Inl e)
                                    | Inr t' \<Rightarrow> engine pol (Reinsert rest t'))
                | _ \<Rightarrow> engine pol (Reinsert rest t)))
      | CheckSize t \<Rightarrow>
          if exceeds_max_load (cells_cnt_m t) (bucket_count t)
          then engine pol (Rehash (div_max_load_factor (bucket_count t)) t)
          else Some (Inr t)
      | InsertElement v t \<Rightarrow>
          Option.bind (engine pol (CheckSize t))
            (\<lambda>r. case r of
                   Inl e \<Rightarrow> Some (Inl e)
                 | Inr t1 \<Rightarrow>
                     if bucket_count t1 = 0 then Some (Inl DivisionByZero)
                     else
                       Option.bind
                         (probe_loop t1 (key_from_value_m t1 v)
                            (CollisionPolicy_ctor pol (bucket_count t1)
                               (hash_m t1 (key_from_value_m t1 v) mod bucket_count t1)))
                         (\<lambda>pr. case pr of
                                 Found i \<Rightarrow> Some (Inr t1)
                               | Vacant i \<Rightarrow> Some (Inr (place t1 i v)))))"

declare engine.simps [code]

definition rehash ::
  "CollisionPolicy \<Rightarrow> nat \<Rightarrow> ('k, 'v) HashTable \<Rightarrow> (error + ('k, 'v) HashTable) option" where
  "rehash pol count t = engine pol (Rehash count t)"

definition check_size ::
  "CollisionPolicy \<Rightarrow> ('k, 'v) HashTable \<Rightarrow> (error + ('k, 'v) HashTable) option" where
  "check_size pol t = engine pol (CheckSize t)"

definition insert_element ::
  "CollisionPolicy \<Rightarrow> 'v \<Rightarrow> ('k, 'v) HashTable \<Rightarrow> (error + ('k, 'v) HashTable) option" where
  "insert_element pol v t = engine pol (InsertElement v t)"

definition reinsert ::
  "CollisionPolicy \<Rightarrow> 'v Element list \<Rightarrow> ('k, 'v) HashTable
     \<Rightarrow> (error + ('k, 'v) HashTable) option" where
  "reinsert pol old t = engine pol (Reinsert old t)"

text \<open>\<^verbatim>\<open>reserve(count)\<close>.\<close>

definition reserve ::
  "CollisionPolicy \<Rightarrow> nat \<Rightarrow> ('k, 'v) HashTable \<Rightarrow> (error + ('k, 'v) HashTable) option" where
  "reserve pol count t =
     Option.bind (optimal_size (div_max_load_factor count)) (\<lambda>n. rehash pol n t)"

subsection \<open>emplace, find, erase\<close>

text \<open>
  Iterators are positions in the slot array; the end sentinel is the length of the array.
  \<^verbatim>\<open>emplace\<close> returns the position, the flag and the updated table.
\<close>

definition emplace ::
  "CollisionPolicy \<Rightarrow> ('k, 'v) HashTable \<Rightarrow> 'v
     \<Rightarrow> (error + (nat \<times> bool) \<times> ('k, 'v) HashTable) option" where
  "emplace pol t v =
     Option.bind (check_size pol t)
       (\<lambda>r. case r of
              Inl e \<Rightarrow> Some (Inl e)
            | Inr t1 \<Rightarrow>
                if bucket_count t1 = 0 then Some (Inl DivisionByZero)
                else
                  Option.bind
                    (probe_loop t1 (key_from_value_m t1 v)
                       (CollisionPolicy_ctor pol (bucket_count t1)
                          (hash_m t1 (key_from_value_m t1 v) mod bucket_count t1)))
                    (\<lambda>pr. case pr of
                            Found i \<Rightarrow> Some (Inr ((i, False), t1))
                          | Vacant i \<Rightarrow> Some (Inr ((i, True), place t1 i v))))"

text \<open>\<^verbatim>\<open>insert(first, last)\<close> and the constructor from a range.\<close>

fun insert_range ::
  "CollisionPolicy \<Rightarrow> ('k, 'v) HashTable \<Rightarrow> 'v list \<Rightarrow> (error + ('k, 'v) HashTable) option" where
  "insert_range pol t [] = Some (Inr t)"
| "insert_range pol t (v # vs) =
     Option.bind (emplace pol t v)
       (\<lambda>r. case r of Inl e \<Rightarrow> Some (Inl e) | Inr (_, t') \<Rightarrow> insert_range pol t' vs)"

definition HashTable_range ::
  "CollisionPolicy \<Rightarrow> 'v list \<Rightarrow> ('v \<Rightarrow> 'k) \<Rightarrow> nat \<Rightarrow> ('k \<Rightarrow> nat) \<Rightarrow> ('k \<Rightarrow> 'k \<Rightarrow> bool)
     \<Rightarrow> (error + ('k, 'v) HashTable) option" where
  "HashTable_range pol vs getKV expected_max_size hash equal =
     Option.bind (HashTable_ctor getKV expected_max_size hash equal)
       (\<lambda>t. insert_range pol t vs)"

text \<open>
  The constructor from an initializer list sizes the slot array with
  \<^verbatim>\<open>expected_max_size / max_load_factor_\<close> directly.
\<close>

definition HashTable_init ::
  "CollisionPolicy \<Rightarrow> 'v list \<Rightarrow> ('v \<Rightarrow> 'k) \<Rightarrow> nat \<Rightarrow> ('k \<Rightarrow> nat) \<Rightarrow> ('k \<Rightarrow> 'k \<Rightarrow> bool)
     \<Rightarrow> (error + ('k, 'v) HashTable) option" where
  "HashTable_init pol init getKV expected_max_size hash equal =
     insert_range pol
       \<lparr>hash_m = hash, equal_m = equal,
        data_m = replicate (div_max_load_factor expected_max_size) FREE, size_m = 0,
        cells_cnt_m = 0, key_from_value_m = getKV\<rparr> init"

definition find_key ::
  "CollisionPolicy \<Rightarrow> ('k, 'v) HashTable \<Rightarrow> 'k \<Rightarrow> (error + nat) option" where
  "find_key pol t key =
     (if bucket_count t = 0 then Some (Inl DivisionByZero)
      else
        Option.bind
          (probe_loop t key (CollisionPolicy_ctor pol (bucket_count t) (hash_m t key)))
          (\<lambda>pr. case pr of
                  Found i \<Rightarrow> Some (Inr i)
                | Vacant i \<Rightarrow> Some (Inr (bucket_count t))))"

text \<open>
  The iterator's \<^verbatim>\<open>operator++\<close>: step once, then on to the next \<^verbatim>\<open>DATA\<close> slot or the end.  It is
  only defined for a position in front of the end.
\<close>

function iterator_incr :: "'v Element list \<Rightarrow> nat \<Rightarrow> nat" where
  "iterator_incr d cur =
     (if cur + 1 < length d \<and> \<not> is_DATA (d ! (cur + 1)) then iterator_incr d (cur + 1)
      else cur + 1)"
  by pat_completeness auto
termination
  by (relation "measure (\<lambda>(d, cur). length d - cur)") auto

text \<open>
  \<^verbatim>\<open>erase(const_iterator)\<close>.  With the end sentinel the increment and the write go past the
  slot array: the error \<open>OutOfRange\<close>.
\<close>

definition erase_pos ::
  "('k, 'v) HashTable \<Rightarrow> nat \<Rightarrow> error + nat \<times> ('k, 'v) HashTable" where
  "erase_pos t pos =
     (if bucket_count t \<le> pos then Inl OutOfRange
      else Inr (iterator_incr (data_m t) pos,
                t\<lparr>data_m := (data_m t)[pos := DELETED],
                  size_m := (size_m t + size_t_mod - 1) mod size_t_mod\<rparr>))"

text \<open>\<^verbatim>\<open>erase(const key_type&)\<close>: a do-while loop, entered with the result of the first \<^verbatim>\<open>find\<close>.\<close>

partial_function (option) erase_loop ::
  "CollisionPolicy \<Rightarrow> ('k, 'v) HashTable \<Rightarrow> 'k \<Rightarrow> nat \<Rightarrow> nat
     \<Rightarrow> (error + nat \<times> ('k, 'v) HashTable) option" where
  "erase_loop pol t key it cnt =
     (case erase_pos t it of
        Inl e \<Rightarrow> Some (Inl e)
      | Inr (_, t1) \<Rightarrow>
          Option.bind (find_key pol t1 key)
            (\<lambda>r. case r of
                   Inl e \<Rightarrow> Some (Inl e)
                 | Inr it1 \<Rightarrow>
                     if it1 \<noteq> bucket_count t1 then erase_loop pol t1 key it1 (cnt + 1)
                     else Some (Inr (cnt + 1, t1))))"

declare erase_loop.simps [code]

definition erase ::
  "CollisionPolicy \<Rightarrow> ('k, 'v) HashTable \<Rightarrow> 'k \<Rightarrow> (error + nat \<times> ('k, 'v) HashTable) option" where
  "erase pol t key =
     Option.bind (find_key pol t key)
       (\<lambda>r. case r of Inl e \<Rightarrow> Some (Inl e) | Inr it \<Rightarrow> erase_loop pol t key it 0)"

subsection \<open>Equality\<close>

definition contains ::
  "CollisionPolicy \<Rightarrow> ('k, 'v) HashTable \<Rightarrow> 'k \<Rightarrow> (error + bool) option" where
  "contains pol t key = map_option (map_sum id (\<lambda>it. it \<noteq> bucket_count t)) (find_key pol t key)"

text \<open>The range-for over \<open>lhs\<close> visits its \<^verbatim>\<open>DATA\<close> slots in array order.\<close>

fun equal_loop ::
  "CollisionPolicy \<Rightarrow> 'v Element list \<Rightarrow> ('k, 'v) HashTable \<Rightarrow> ('k, 'v) HashTable
     \<Rightarrow> (error + bool) option" where
  "equal_loop pol [] lhs rhs = Some (Inr True)"
| "equal_loop pol (DATA v # rest) lhs rhs =
     Option.bind (contains pol rhs (key_from_value_m lhs v))
       (\<lambda>r. case r of
              Inl e \<Rightarrow> Some (Inl e)
            | Inr b \<Rightarrow> if \<not> b then Some (Inr False) else equal_loop pol rest lhs rhs)"
| "equal_loop pol (_ # rest) lhs rhs = equal_loop pol rest lhs rhs"

definition table_equal ::
  "CollisionPolicy \<Rightarrow> ('k, 'v) HashTable \<Rightarrow> ('k, 'v) HashTable \<Rightarrow> (error + bool) option" where
  "table_equal pol lhs rhs =
     (if size_m lhs \<noteq> size_m rhs then Some (Inr False)
      else equal_loop pol (data_m lhs) lhs rhs)"

section \<open>Notions used to state the properties\<close>

text \<open>
  The slot that a probe loop started at \<open>st\<close> reads at its \<open>i\<close>-th iteration
  (\<^verbatim>\<open>data_[*it]\<close> after \<open>i\<close> increments), and the condition under which the loop goes on to the
  next candidate: the slot is not \<^verbatim>\<open>FREE\<close> and does not hold an equal key.
\<close>

definition slot_at :: "CollisionPolicy \<Rightarrow> ('k, 'v) HashTable \<Rightarrow> nat \<Rightarrow> nat \<Rightarrow> 'v Element" where
  "slot_at pol t st i = data_m t ! candidate pol (bucket_count t) st i"

definition passes :: "('k, 'v) HashTable \<Rightarrow> 'k \<Rightarrow> 'v Element \<Rightarrow> bool" where
  "passes t key e \<longleftrightarrow> \<not> is_FREE e \<and> \<not> holds_key t key e"

text \<open>The live values: the contents of the \<^verbatim>\<open>DATA\<close> slots, in array order, as iteration yields them.\<close>

fun live :: "'v Element list \<Rightarrow> 'v list" where
  "live [] = []"
| "live (DATA v # d) = v # live d"
| "live (_ # d) = live d"

text \<open>The number of slots that are not \<^verbatim>\<open>FREE\<close>, which \<^verbatim>\<open>cells_cnt_\<close> is meant to count.\<close>

definition occupied_cells :: "'v Element list \<Rightarrow> nat" where
  "occupied_cells d = length (filter (\<lambda>e. \<not> is_FREE e) d)"

text \<open>No two keys of a list are equal under the table's equality, in either order.\<close>

fun unique_keys :: "('k \<Rightarrow> 'k \<Rightarrow> bool) \<Rightarrow> 'k list \<Rightarrow> bool" where
  "unique_keys eq [] = True"
| "unique_keys eq (k # ks) = (list_all (\<lambda>k'. \<not> eq k k' \<and> \<not> eq k' k) ks \<and> unique_keys eq ks)"

text \<open>
  The invariants of a table: the two counters agree with the slot array, live keys are
  unique, and the slot count is in the range where its conversion to \<^verbatim>\<open>float\<close> is exact.
\<close>

definition table_inv :: "('k, 'v) HashTable \<Rightarrow> bool" where
  "table_inv t \<longleftrightarrow>
     size_m t = length (live (data_m t)) \<and>
     cells_cnt_m t = occupied_cells (data_m t) \<and>
     unique_keys (equal_m t) (map (key_from_value_m t) (live (data_m t))) \<and>
     bucket_count t < 2 ^ 24"

section \<open>Evaluating the model on concrete tables\<close>

lemma replicate_numeral_Cons: "replicate (numeral k) x = x # replicate (pred_numeral k) x"
  by (simp add: numeral_eq_Suc)

lemma list_update_numeral_Cons: "(x # xs)[numeral k := y] = x # xs[pred_numeral k := y]"
  by (simp add: numeral_eq_Suc)

lemmas run_defs =
  HashTable_range_def HashTable_ctor_def HashTable_init_def optimal_size_def
  div_max_load_factor_def to_float_def float_exp.simps size_t_mod_def optimal_size_loop.simps
  emplace_def
  check_size_def rehash_def engine.simps exceeds_max_load_def bucket_count_def
  probe_loop.simps lp_deref_def lp_incr_def LinearProbing_ctor_def place_def Let_def
  find_key_def erase_def erase_loop.simps erase_pos_def table_equal_def contains_def
  clear_def qp_deref_def qp_incr_def QuadraticProbing_ctor_def replicate_numeral_Cons
  list_update_numeral_Cons candidate_def slot_at_def passes_def

section \<open>The probe loop and the two policies\<close>

lemma probe_loop_skip:
  assumes "\<forall>j<i. \<not> is_FREE (data_m t ! deref (advance j it)) \<and> \<not> holds_key t key (data_m t ! deref (advance j it))"
  shows "probe_loop t key it = probe_loop t key (advance i it)"
  using assms
proof (induction i arbitrary: it)
  case 0
  then show ?case by simp
next
  case (Suc i)
  from Suc.prems have here: "\<not> is_FREE (data_m t ! deref it)" "\<not> holds_key t key (data_m t ! deref it)"
    by force+
  have "\<forall>j<i. \<not> is_FREE (data_m t ! deref (advance j (incr it))) \<and> \<not> holds_key t key (data_m t ! deref (advance j (incr it)))"
  proof (intro allI impI)
    fix j assume "j < i"
    then have "Suc j < Suc i" by simp
    with Suc.prems show "\<not> is_FREE (data_m t ! deref (advance j (incr it))) \<and> \<not> holds_key t key (data_m t ! deref (advance j (incr it)))"
      by (metis advance.simps(2))
  qed
  then have "probe_loop t key (incr it) = probe_loop t key (advance i (incr it))"
    by (rule Suc.IH)
  moreover have "probe_loop t key it = probe_loop t key (incr it)"
    using here by (subst probe_loop.simps) simp
  ultimately show ?case by simp
qed

lemma probe_loop_vacant:
  "is_FREE (data_m t ! deref it) \<Longrightarrow> probe_loop t key it = Some (Vacant (deref it))"
  by (subst probe_loop.simps) simp

lemma holds_key_not_FREE: "holds_key t key e \<Longrightarrow> \<not> is_FREE e"
  by (cases e) simp_all

lemma probe_loop_found:
  "holds_key t key (data_m t ! deref it) \<Longrightarrow> probe_loop t key it = Some (Found (deref it))"
  by (subst probe_loop.simps) (simp add: holds_key_not_FREE)

lemma advance_LP:
  "advance i (LP \<lparr>lp_size = n, currentIndex = c mod size_t_mod, lp_start = s\<rparr>)
     = LP \<lparr>lp_size = n, currentIndex = (c + i) mod size_t_mod, lp_start = s\<rparr>"
proof (induction i arbitrary: c)
  case 0
  then show ?case by simp
next
  case (Suc i)
  have "incr (LP \<lparr>lp_size = n, currentIndex = c mod size_t_mod, lp_start = s\<rparr>)
          = LP \<lparr>lp_size = n, currentIndex = Suc c mod size_t_mod, lp_start = s\<rparr>"
    by (simp add: lp_incr_def mod_Suc_eq)
  then show ?case using Suc.IH [of "Suc c"] by simp
qed

lemma candidate_Linear:
  "candidate Linear n s i = ((s + i) mod size_t_mod) mod n"
proof -
  have "advance i (LP \<lparr>lp_size = n, currentIndex = 0 mod size_t_mod, lp_start = s\<rparr>)
     = LP \<lparr>lp_size = n, currentIndex = (0 + i) mod size_t_mod, lp_start = s\<rparr>"
    by (rule advance_LP)
  then show ?thesis
    by (simp add: candidate_def LinearProbing_ctor_def lp_deref_def mod_add_right_eq)
qed

lemma linear_reaches:
  assumes "n \<le> size_t_mod" "f < n"
  shows "\<exists>i. candidate Linear n s i = f"
proof -
  let ?M = size_t_mod
  let ?i = "f + (?M - s mod ?M)"
  have M: "0 < ?M" by (simp add: size_t_mod_def)
  have "s mod ?M \<le> ?M" using M by (simp add: less_imp_le)
  then have "s mod ?M + ?i = f + ?M" by simp
  then have "(s + ?i) mod ?M = (f + ?M) mod ?M"
    by (metis mod_add_left_eq)
  also have "\<dots> = f" using assms by simp
  finally have "candidate Linear n s ?i = f"
    using assms by (simp add: candidate_Linear)
  then show ?thesis ..
qed

lemma candidate_Linear_less: "0 < n \<Longrightarrow> candidate Linear n s i < n"
  by (simp add: candidate_Linear)

lemma linear_probe_stops:
  assumes N: "0 < bucket_count t" "bucket_count t \<le> size_t_mod"
    and free: "\<exists>f<bucket_count t. is_FREE (data_m t ! f)"
  shows "\<exists>p<bucket_count t.
           (holds_key t key (data_m t ! p)
              \<and> probe_loop t key (CollisionPolicy_ctor Linear (bucket_count t) s) = Some (Found p))
         \<or> (is_FREE (data_m t ! p)
              \<and> probe_loop t key (CollisionPolicy_ctor Linear (bucket_count t) s) = Some (Vacant p))"
proof -
  let ?it = "CollisionPolicy_ctor Linear (bucket_count t) s"
  let ?P = "\<lambda>i. is_FREE (data_m t ! deref (advance i ?it)) \<or> holds_key t key (data_m t ! deref (advance i ?it))"
  from free obtain f where f: "f < bucket_count t" "is_FREE (data_m t ! f)" by blast
  obtain i where "candidate Linear (bucket_count t) s i = f"
    using linear_reaches [OF N(2) f(1)] by blast
  then have ex: "?P i" using f(2) by (simp add: candidate_def)
  define i0 where "i0 = (LEAST i. ?P i)"
  have P0: "?P i0" unfolding i0_def using ex by (rule LeastI)
  have before: "\<forall>j<i0. \<not> is_FREE (data_m t ! deref (advance j ?it)) \<and> \<not> holds_key t key (data_m t ! deref (advance j ?it))"
    unfolding i0_def using not_less_Least by blast
  have skip: "probe_loop t key ?it = probe_loop t key (advance i0 ?it)"
    using before by (rule probe_loop_skip)
  have lt: "deref (advance i0 ?it) < bucket_count t"
    using candidate_Linear_less [OF N(1), of s i0] by (simp add: candidate_def)
  show ?thesis
  proof (cases "holds_key t key (data_m t ! deref (advance i0 ?it))")
    case True
    then show ?thesis using skip lt probe_loop_found by metis
  next
    case False
    with P0 have "is_FREE (data_m t ! deref (advance i0 ?it))" by simp
    then show ?thesis using skip lt probe_loop_vacant by metis
  qed
qed

lemma advance_QP:
  "advance i (QP \<lparr>qp_size = n, currentBase = c mod size_t_mod, qp_start = s\<rparr>)
     = QP \<lparr>qp_size = n, currentBase = (c + i) mod size_t_mod, qp_start = s\<rparr>"
proof (induction i arbitrary: c)
  case 0
  then show ?case by simp
next
  case (Suc i)
  have "incr (QP \<lparr>qp_size = n, currentBase = c mod size_t_mod, qp_start = s\<rparr>)
          = QP \<lparr>qp_size = n, currentBase = Suc c mod size_t_mod, qp_start = s\<rparr>"
    by (simp add: qp_incr_def mod_Suc_eq)
  then show ?case using Suc.IH [of "Suc c"] by simp
qed

lemma candidate_Quadratic:
  "candidate Quadratic n s i
     = ((s + ((i mod size_t_mod) * (i mod size_t_mod)) mod size_t_mod) mod size_t_mod) mod n"
proof -
  have "advance i (QP \<lparr>qp_size = n, currentBase = 0 mod size_t_mod, qp_start = s\<rparr>)
     = QP \<lparr>qp_size = n, currentBase = (0 + i) mod size_t_mod, qp_start = s\<rparr>"
    by (rule advance_QP)
  then show ?thesis
    by (simp add: candidate_def QuadraticProbing_ctor_def qp_deref_def)
qed

lemma candidate_reduced_start:
  assumes "n dvd size_t_mod"
  shows "candidate pol n (h mod n) i = candidate pol n h i"
proof -
  have red: "((h mod n + x) mod size_t_mod) mod n = ((h + x) mod size_t_mod) mod n" for x
  proof -
    have "((h mod n + x) mod size_t_mod) mod n = (h mod n + x) mod n"
      using assms by (rule mod_mod_cancel)
    also have "\<dots> = (h + x) mod n" by (rule mod_add_left_eq)
    also have "\<dots> = ((h + x) mod size_t_mod) mod n"
      using assms by (rule mod_mod_cancel [symmetric])
    finally show ?thesis .
  qed
  show ?thesis
  proof (cases pol)
    case Linear
    then show ?thesis by (simp add: candidate_Linear red)
  next
    case Quadratic
    then show ?thesis by (simp add: candidate_Quadratic red)
  qed
qed

lemma advance_incr: "advance i (incr it) = incr (advance i it)"
  by (induction i arbitrary: it) simp_all

lemma probe_loop_result:
  assumes "probe_loop t key it = Some y"
  shows "\<exists>i. (y = Found (deref (advance i it)) \<and> holds_key t key (data_m t ! deref (advance i it)))
           \<or> (y = Vacant (deref (advance i it)) \<and> is_FREE (data_m t ! deref (advance i it)))"
proof -
  define P where "P = (\<lambda>(t :: ('a, 'b) HashTable) key it y.
     \<exists>i. (y = Found (deref (advance i it)) \<and> holds_key t key (data_m t ! deref (advance i it)))
           \<or> (y = Vacant (deref (advance i it)) \<and> is_FREE (data_m t ! deref (advance i it))))"
  have step: "P t key it y"
    if IH: "\<And>t key it y. f t key it = Some y \<Longrightarrow> P t key it y"
      and eq: "(if \<not> is_FREE (data_m t ! deref it)
      then if holds_key t key (data_m t ! deref it)
           then Some (Found (deref it)) else f t key (incr it)
      else Some (Vacant (deref it))) = Some y"
    for f and t :: "('a, 'b) HashTable" and key it y
  proof (cases "is_FREE (data_m t ! deref it)")
    case True
    with eq have "y = Vacant (deref (advance 0 it))" by simp
    with True show ?thesis unfolding P_def by (intro exI [of _ 0]) simp
  next
    case False
    show ?thesis
    proof (cases "holds_key t key (data_m t ! deref it)")
      case True
      with False eq have "y = Found (deref (advance 0 it))" by simp
      with True show ?thesis unfolding P_def by (intro exI [of _ 0]) simp
    next
      case nh: False
      with False eq have "f t key (incr it) = Some y" by simp
      then have "P t key (incr it) y" by (rule IH)
      then obtain i where
        "(y = Found (deref (advance i (incr it))) \<and> holds_key t key (data_m t ! deref (advance i (incr it))))
           \<or> (y = Vacant (deref (advance i (incr it))) \<and> is_FREE (data_m t ! deref (advance i (incr it))))"
        unfolding P_def by blast
      then show ?thesis unfolding P_def by (intro exI [of _ "Suc i"]) simp
    qed
  qed
  have "P t key it y" using step assms by (rule probe_loop.raw_induct)
  then show ?thesis by (simp add: P_def)
qed

lemma candidate_less: "0 < n \<Longrightarrow> candidate pol n s i < n"
  by (cases pol) (simp_all add: candidate_Linear candidate_Quadratic)

lemma sq_mod8: "(c * c) mod 8 \<in> {0, 1, 4::nat}"
proof -
  have "(c * c) mod 8 = ((c mod 8) * (c mod 8)) mod 8" by (simp add: mod_mult_eq)
  moreover have "c mod 8 < 8" by simp
  then have "c mod 8 \<in> {0,1,2,3,4,5,6,7}" by auto
  ultimately show ?thesis by auto
qed

lemma quad_deref8:
  assumes "8 dvd s"
  shows "qp_deref \<lparr>qp_size = 8, currentBase = c, qp_start = s\<rparr> = (c * c) mod 8"
proof -
  have dv: "(8::nat) dvd 2 ^ 64" by simp
  have "((s + (c * c) mod 2 ^ 64) mod 2 ^ 64) mod 8 = (s + (c * c) mod 2 ^ 64) mod (8::nat)"
    using dv by (rule mod_mod_cancel)
  also have "\<dots> = ((c * c) mod 2 ^ 64) mod 8" using assms by (simp add: mod_add_left_eq [symmetric] mod_0_imp_dvd dvd_imp_mod_0)
  also have "\<dots> = (c * c) mod 8" using dv by (rule mod_mod_cancel)
  finally show ?thesis by (simp add: qp_deref_def size_t_mod_def)
qed

text \<open>
  Quadratic probing on 8 slots only ever reads the slots 0, 1 and 4 past a start that is a
  multiple of 8.  With those three holding other keys the probe loop has no exit.
\<close>

lemma quad_diverges:
  assumes "8 dvd s"
  shows "probe_loop \<lparr>hash_m = \<lambda>k::nat. k, equal_m = (=), data_m = [DATA (0::nat), DATA 8, FREE, FREE, DATA 16, FREE, FREE, FREE], size_m = 3, cells_cnt_m = 3, key_from_value_m = \<lambda>v. v\<rparr> 24 (QP \<lparr>qp_size = 8, currentBase = c, qp_start = s\<rparr>) = None"
proof -
  let ?T = "\<lparr>hash_m = \<lambda>k::nat. k, equal_m = (=), data_m = [DATA (0::nat), DATA 8, FREE, FREE, DATA 16, FREE, FREE, FREE], size_m = 3, cells_cnt_m = 3, key_from_value_m = \<lambda>v. v\<rparr>"
  define P where "P = (\<lambda>t key it (y::probe_result). t = ?T \<longrightarrow> key = (24::nat) \<longrightarrow> (\<forall>c s. 8 dvd s \<longrightarrow> it \<noteq> QP \<lparr>qp_size = 8, currentBase = c, qp_start = s\<rparr>))"
  have step: "P t key it y"
    if IH: "\<And>t key it y. f t key it = Some y \<Longrightarrow> P t key it y"
      and eq: "(if \<not> is_FREE (data_m t ! deref it)
      then if holds_key t key (data_m t ! deref it)
           then Some (Found (deref it)) else f t key (incr it)
      else Some (Vacant (deref it))) = Some y"
    for f t key it y
    unfolding P_def
  proof (intro impI allI notI)
    fix c s assume t: "t = ?T" and k: "key = 24" and s: "(8::nat) dvd s"
      and it: "it = QP \<lparr>qp_size = 8, currentBase = c, qp_start = s\<rparr>"
    have d: "deref it = (c * c) mod 8"
      using quad_deref8 [OF s] by (simp only: it deref.simps)
    have "deref it = 0 \<or> deref it = 1 \<or> deref it = 4" using sq_mod8 [of c] d by simp
    then have pass: "\<not> is_FREE (data_m t ! deref it) \<and> \<not> holds_key t key (data_m t ! deref it)"
      by (elim disjE) (simp_all add: t k)
    with eq have "f t key (incr it) = Some y" by simp
    then have "P t key (incr it) y" by (rule IH)
    then show False using s by (auto simp: P_def t k it qp_incr_def)
  qed
  have main: "P t key it y" if "probe_loop t key it = Some y" for t key it y
    using step that by (rule probe_loop.raw_induct)
  have "False" if "probe_loop ?T 24 (QP \<lparr>qp_size = 8, currentBase = c, qp_start = s\<rparr>) = Some a" for a
  proof -
    from that have "P ?T 24 (QP \<lparr>qp_size = 8, currentBase = c, qp_start = s\<rparr>) a" by (rule main)
    then show False using assms by (auto simp: P_def)
  qed
  then show ?thesis
    by (cases "probe_loop ?T 24 (QP \<lparr>qp_size = 8, currentBase = c, qp_start = s\<rparr>)") auto
qed

section \<open>The instances of the engine\<close>

lemma check_size_unfold:
  "check_size pol t =
     (if exceeds_max_load (cells_cnt_m t) (bucket_count t)
      then rehash pol (div_max_load_factor (bucket_count t)) t else Some (Inr t))"
  by (simp add: check_size_def rehash_def engine.simps [of pol "CheckSize t"])

lemma rehash_unfold:
  "rehash pol count t =
     (if count = bucket_count t then Some (Inr t)
      else reinsert pol (data_m t)
             (t\<lparr>data_m := replicate (if to_float count < div_max_load_factor (size_m t)
                                       then div_max_load_factor (size_m t) else count) FREE,
                size_m := 0, cells_cnt_m := 0\<rparr>))"
  by (simp add: rehash_def reinsert_def engine.simps [of pol "Rehash count t"] Let_def)

lemma reinsert_Nil: "reinsert pol [] t = Some (Inr t)"
  by (simp add: reinsert_def engine.simps [of pol "Reinsert [] t"])

lemma reinsert_DATA:
  "reinsert pol (DATA v # rest) t =
     Option.bind (insert_element pol v t)
       (\<lambda>r. case r of Inl e \<Rightarrow> Some (Inl e) | Inr t' \<Rightarrow> reinsert pol rest t')"
  unfolding reinsert_def insert_element_def
  by (subst engine.simps) simp

lemma reinsert_FREE: "reinsert pol (FREE # rest) t = reinsert pol rest t"
  by (simp add: reinsert_def engine.simps [of pol "Reinsert (FREE # rest) t"])

lemma reinsert_DELETED: "reinsert pol (DELETED # rest) t = reinsert pol rest t"
  by (simp add: reinsert_def engine.simps [of pol "Reinsert (DELETED # rest) t"])

lemma insert_element_unfold:
  "insert_element pol v t =
     Option.bind (check_size pol t)
       (\<lambda>r. case r of
              Inl e \<Rightarrow> Some (Inl e)
            | Inr t1 \<Rightarrow>
                if bucket_count t1 = 0 then Some (Inl DivisionByZero)
                else
                  Option.bind
                    (probe_loop t1 (key_from_value_m t1 v)
                       (CollisionPolicy_ctor pol (bucket_count t1)
                          (hash_m t1 (key_from_value_m t1 v) mod bucket_count t1)))
                    (\<lambda>pr. case pr of
                            Found i \<Rightarrow> Some (Inr t1)
                          | Vacant i \<Rightarrow> Some (Inr (place t1 i v))))"
  unfolding insert_element_def check_size_def
  by (subst engine.simps) simp

section \<open>Counting slots and live values\<close>

lemma to_float_small: "n < 2 ^ 24 \<Longrightarrow> to_float n = n"
  by (simp add: to_float_def float_exp.simps [of n])

lemma to_float_double:
  assumes "n < 2 ^ 24"
  shows "to_float (2 * n) = 2 * n"
proof (cases "2 * n < 2 ^ 24")
  case True
  then show ?thesis by (rule to_float_small)
next
  case False
  have "float_exp (2 * n) = Suc (float_exp ((2 * n) div 2))"
    using False by (subst float_exp.simps) simp
  also have "\<dots> = Suc 0" using assms by (simp add: float_exp.simps [of n])
  finally have e: "float_exp (2 * n) = Suc 0" .
  show ?thesis by (simp add: to_float_def e)
qed

lemma live_set: "set (live d) = {v. DATA v \<in> set d}"
  by (induction d rule: live.induct) auto

lemma length_live_le: "length (live d) \<le> length d"
  by (induction d rule: live.induct) auto

lemma occupied_cells_le: "occupied_cells d \<le> length d"
  by (simp add: occupied_cells_def)

lemma live_replicate_FREE: "live (replicate n FREE) = []"
  by (induction n) auto

lemma occupied_cells_replicate_FREE: "occupied_cells (replicate n FREE) = 0"
  by (simp add: occupied_cells_def)

lemma live_update_FREE:
  "i < length d \<Longrightarrow> d ! i = FREE \<Longrightarrow>
     set (live (d[i := DATA v])) = insert v (set (live d))
     \<and> length (live (d[i := DATA v])) = Suc (length (live d))"
proof (induction d arbitrary: i)
  case Nil
  then show ?case by simp
next
  case (Cons e d)
  then show ?case by (cases i; cases e) auto
qed

lemma occupied_cells_update_FREE:
  "i < length d \<Longrightarrow> d ! i = FREE \<Longrightarrow> occupied_cells (d[i := DATA v]) = Suc (occupied_cells d)"
proof (induction d arbitrary: i)
  case Nil
  then show ?case by simp
next
  case (Cons e d)
  then show ?case by (cases i) (auto simp: occupied_cells_def)
qed

lemma exists_FREE:
  assumes "occupied_cells d < length d"
  shows "\<exists>f<length d. is_FREE (d ! f)"
proof (rule ccontr)
  assume "\<not> (\<exists>f<length d. is_FREE (d ! f))"
  then have "\<forall>e\<in>set d. \<not> is_FREE e" by (auto simp: in_set_conv_nth)
  then have "filter (\<lambda>e. \<not> is_FREE e) d = d" by (simp add: filter_id_conv)
  then have "occupied_cells d = length d" by (simp add: occupied_cells_def)
  with assms show False by simp
qed

lemma is_FREE_iff: "is_FREE e \<longleftrightarrow> e = FREE"
  by (cases e) simp_all

lemma no_live_key_no_slot:
  assumes "\<forall>w\<in>set (live (data_m t)). \<not> equal_m t (key_from_value_m t w) key"
    and "p < length (data_m t)"
  shows "\<not> holds_key t key (data_m t ! p)"
proof (cases "data_m t ! p")
  case (DATA w)
  then have "DATA w \<in> set (data_m t)" using assms(2) by (metis nth_mem)
  then have "w \<in> set (live (data_m t))" by (simp add: live_set)
  with assms(1) DATA show ?thesis by simp
qed simp_all

lemma insert_element_linear_new:
  assumes cells: "cells_cnt_m t = occupied_cells (data_m t)"
    and N: "bucket_count t \<le> size_t_mod" "to_float (bucket_count t) = bucket_count t"
    and small: "cells_cnt_m t < 2 ^ 24" "2 * cells_cnt_m t < bucket_count t"
    and new: "\<forall>w\<in>set (live (data_m t)). \<not> equal_m t (key_from_value_m t w) (key_from_value_m t v)"
  shows "\<exists>p<bucket_count t. data_m t ! p = FREE \<and> insert_element Linear v t = Some (Inr (place t p v))"
proof -
  let ?key = "key_from_value_m t v"
  let ?s = "hash_m t ?key mod bucket_count t"
  have chk: "check_size Linear t = Some (Inr t)"
    using N(2) small by (simp add: check_size_unfold exceeds_max_load_def to_float_small)
  have pos: "0 < bucket_count t" using small(2) by simp
  have "occupied_cells (data_m t) < length (data_m t)"
    using cells small(2) by (simp add: bucket_count_def)
  then have "\<exists>f<bucket_count t. is_FREE (data_m t ! f)"
    unfolding bucket_count_def by (rule exists_FREE)
  from linear_probe_stops [OF pos N(1) this, of ?key ?s]
  obtain p where p: "p < bucket_count t"
    and alt: "(holds_key t ?key (data_m t ! p)
              \<and> probe_loop t ?key (CollisionPolicy_ctor Linear (bucket_count t) ?s) = Some (Found p))
         \<or> (is_FREE (data_m t ! p)
              \<and> probe_loop t ?key (CollisionPolicy_ctor Linear (bucket_count t) ?s) = Some (Vacant p))"
    by blast
  have "\<not> holds_key t ?key (data_m t ! p)"
    using new p by (intro no_live_key_no_slot) (simp_all add: bucket_count_def)
  with alt have free: "is_FREE (data_m t ! p)"
    and pl: "probe_loop t ?key (CollisionPolicy_ctor Linear (bucket_count t) ?s) = Some (Vacant p)"
    by blast+
  have "insert_element Linear v t = Some (Inr (place t p v))"
    using chk pos pl by (simp add: insert_element_unfold)
  with p free show ?thesis by (auto simp: is_FREE_iff)
qed

section \<open>Re-insertion, rehash and the capacity check\<close>

lemma unique_keys_Cons_D:
  "unique_keys eq (k # ks) \<Longrightarrow> (\<forall>k'\<in>set ks. \<not> eq k k') \<and> unique_keys eq ks"
  by (simp add: list_all_iff)

lemma place_fields:
  "hash_m (place t p v) = hash_m t" "equal_m (place t p v) = equal_m t"
  "key_from_value_m (place t p v) = key_from_value_m t"
  "data_m (place t p v) = (data_m t)[p := DATA v]"
  "bucket_count (place t p v) = bucket_count t"
  by (simp_all add: place_def bucket_count_def)

lemma place_counters:
  "size_m t < 2 ^ 24 \<Longrightarrow> size_m (place t p v) = size_m t + 1"
  "cells_cnt_m t < 2 ^ 24 \<Longrightarrow> cells_cnt_m (place t p v) = cells_cnt_m t + 1"
  by (simp_all add: place_def size_t_mod_def)

lemma reinsert_linear:
  assumes "cells_cnt_m t = occupied_cells (data_m t)"
    and "size_m t = length (live (data_m t))"
    and "cells_cnt_m t = size_m t"
    and "DELETED \<notin> set (data_m t)"
    and "bucket_count t \<le> size_t_mod"
    and "to_float (bucket_count t) = bucket_count t"
    and "size_m t + length (live old) < 2 ^ 24"
    and "2 * (size_m t + length (live old)) \<le> bucket_count t"
    and "\<forall>w\<in>set (live (data_m t)). \<forall>v\<in>set (live old).
            \<not> equal_m t (key_from_value_m t w) (key_from_value_m t v)"
    and "unique_keys (equal_m t) (map (key_from_value_m t) (live old))"
  shows "\<exists>t'. reinsert Linear old t = Some (Inr t')
           \<and> bucket_count t' = bucket_count t
           \<and> DELETED \<notin> set (data_m t')
           \<and> cells_cnt_m t' = occupied_cells (data_m t')
           \<and> size_m t' = length (live (data_m t'))
           \<and> cells_cnt_m t' = size_m t'
           \<and> size_m t' = size_m t + length (live old)
           \<and> set (live (data_m t')) = set (live (data_m t)) \<union> set (live old)
           \<and> hash_m t' = hash_m t \<and> equal_m t' = equal_m t
           \<and> key_from_value_m t' = key_from_value_m t"
  using assms
proof (induction old arbitrary: t)
  case Nil
  then show ?case by (simp add: reinsert_Nil)
next
  case (Cons e rest)
  show ?case
  proof (cases e)
    case FREE
    with Cons show ?thesis by (simp add: reinsert_FREE)
  next
    case DELETED
    with Cons show ?thesis by (simp add: reinsert_DELETED)
  next
    case (DATA v)
    note prems = Cons.prems [unfolded DATA]
    let ?k = "key_from_value_m t"
    have new: "\<forall>w\<in>set (live (data_m t)). \<not> equal_m t (?k w) (?k v)"
      using prems(9) by simp
    have small: "cells_cnt_m t < 2 ^ 24" "2 * cells_cnt_m t < bucket_count t"
      using prems(3,7,8) by simp_all
    from insert_element_linear_new [OF prems(1) prems(5) prems(6) small new]
    obtain p where p: "p < bucket_count t" "data_m t ! p = FREE"
      and ins: "insert_element Linear v t = Some (Inr (place t p v))"
      by blast
    let ?t1 = "place t p v"
    have cnt1: "size_m ?t1 = size_m t + 1" "cells_cnt_m ?t1 = cells_cnt_m t + 1"
      using small(1) prems(3) by (simp_all add: place_counters)
    have pl: "p < length (data_m t)" using p(1) by (simp add: bucket_count_def)
    have lv: "set (live (data_m ?t1)) = insert v (set (live (data_m t)))"
      "length (live (data_m ?t1)) = Suc (length (live (data_m t)))"
      using live_update_FREE [OF pl p(2), of v] by (simp_all add: place_fields cnt1)
    have uq: "(\<forall>k'\<in>set (map ?k (live rest)). \<not> equal_m t (?k v) k')"
      "unique_keys (equal_m t) (map ?k (live rest))"
      using unique_keys_Cons_D [of "equal_m t" "?k v" "map ?k (live rest)"] prems(10) by simp_all
    have a1: "cells_cnt_m ?t1 = occupied_cells (data_m ?t1)"
      using occupied_cells_update_FREE [OF pl p(2), of v] prems(1) by (simp add: place_fields cnt1)
    have a2: "size_m ?t1 = length (live (data_m ?t1))"
      using lv(2) prems(2) by (simp add: place_fields cnt1)
    have a3: "cells_cnt_m ?t1 = size_m ?t1"
      using prems(3) by (simp add: place_fields cnt1)
    have a4: "DELETED \<notin> set (data_m ?t1)"
    proof -
      have "set (data_m ?t1) \<subseteq> insert (DATA v) (set (data_m t))"
        by (simp add: place_fields cnt1 set_update_subset_insert)
      with prems(4) show ?thesis by auto
    qed
    have a5: "bucket_count ?t1 \<le> size_t_mod" using prems(5) by (simp add: place_fields cnt1)
    have a6: "to_float (bucket_count ?t1) = bucket_count ?t1"
      using prems(6) by (simp add: place_fields cnt1)
    have a7: "size_m ?t1 + length (live rest) < 2 ^ 24"
      using prems(7) by (simp add: place_fields cnt1)
    have a8: "2 * (size_m ?t1 + length (live rest)) \<le> bucket_count ?t1"
      using prems(8) by (simp add: place_fields cnt1)
    have a9: "\<forall>w\<in>set (live (data_m ?t1)). \<forall>v\<in>set (live rest).
              \<not> equal_m ?t1 (key_from_value_m ?t1 w) (key_from_value_m ?t1 v)"
      using prems(9) uq(1) lv(1) by (auto simp: place_fields cnt1)
    have a10: "unique_keys (equal_m ?t1) (map (key_from_value_m ?t1) (live rest))"
      using uq(2) by (simp add: place_fields cnt1)
    from Cons.IH [OF a1 a2 a3 a4 a5 a6 a7 a8 a9 a10]
    obtain t' where t': "reinsert Linear rest ?t1 = Some (Inr t')"
      "bucket_count t' = bucket_count ?t1" "DELETED \<notin> set (data_m t')"
      "cells_cnt_m t' = occupied_cells (data_m t')" "size_m t' = length (live (data_m t'))"
      "cells_cnt_m t' = size_m t'" "size_m t' = size_m ?t1 + length (live rest)"
      "set (live (data_m t')) = set (live (data_m ?t1)) \<union> set (live rest)"
      "hash_m t' = hash_m ?t1" "equal_m t' = equal_m ?t1"
      "key_from_value_m t' = key_from_value_m ?t1"
      by blast
    have "reinsert Linear (DATA v # rest) t = Some (Inr t')"
      using ins t'(1) by (simp add: reinsert_DATA)
    moreover have "set (live (data_m t')) = set (live (data_m t)) \<union> set (live (DATA v # rest))"
      using t'(8) lv(1) by auto
    moreover have "size_m t' = size_m t + length (live (DATA v # rest))"
      using t'(7) by (simp add: place_fields cnt1)
    ultimately show ?thesis
      unfolding DATA using t'(2-6) t'(9-11) by (simp add: place_fields cnt1)
  qed
qed

lemma insert_element_emplace:
  "insert_element pol v t = map_option (map_sum id snd) (emplace pol t v)"
proof (cases "check_size pol t")
  case None
  then show ?thesis by (simp add: insert_element_unfold emplace_def)
next
  case (Some r)
  show ?thesis
  proof (cases r)
    case (Inl e)
    with Some show ?thesis by (simp add: insert_element_unfold emplace_def)
  next
    case (Inr t1)
    let ?pl = "probe_loop t1 (key_from_value_m t1 v)
        (CollisionPolicy_ctor pol (bucket_count t1)
           (hash_m t1 (key_from_value_m t1 v) mod bucket_count t1))"
    show ?thesis
    proof (cases ?pl)
      case None
      with Some Inr show ?thesis by (simp add: insert_element_unfold emplace_def)
    next
      case (Some pr)
      with \<open>check_size pol t = Some r\<close> Inr show ?thesis
        by (cases pr) (simp_all add: insert_element_unfold emplace_def)
    qed
  qed
qed

lemma emplace_of_insert_element:
  assumes "insert_element pol v t = Some (Inr t')"
  shows "\<exists>r. emplace pol t v = Some (Inr (r, t'))"
proof (cases "emplace pol t v")
  case None
  with assms show ?thesis by (simp add: insert_element_emplace)
next
  case (Some z)
  show ?thesis
  proof (cases z)
    case (Inl e)
    with Some assms show ?thesis by (simp add: insert_element_emplace)
  next
    case (Inr rt)
    with Some assms show ?thesis by (cases rt) (simp add: insert_element_emplace)
  qed
qed

lemma insert_range_linear:
  assumes "cells_cnt_m t = occupied_cells (data_m t)"
    and "size_m t = length (live (data_m t))"
    and "cells_cnt_m t = size_m t"
    and "bucket_count t \<le> size_t_mod"
    and "to_float (bucket_count t) = bucket_count t"
    and "size_m t + length vs < 2 ^ 24"
    and "2 * (size_m t + length vs) \<le> bucket_count t"
    and "\<forall>w\<in>set (live (data_m t)). \<forall>v\<in>set vs.
            \<not> equal_m t (key_from_value_m t w) (key_from_value_m t v)"
    and "unique_keys (equal_m t) (map (key_from_value_m t) vs)"
  shows "\<exists>t'. insert_range Linear t vs = Some (Inr t')
           \<and> bucket_count t' = bucket_count t
           \<and> cells_cnt_m t' = size_m t'
           \<and> size_m t' = size_m t + length vs
           \<and> set (live (data_m t')) = set (live (data_m t)) \<union> set vs"
  using assms
proof (induction vs arbitrary: t)
  case Nil
  then show ?case by simp
next
  case (Cons v rest)
  let ?k = "key_from_value_m t"
  have new: "\<forall>w\<in>set (live (data_m t)). \<not> equal_m t (?k w) (?k v)"
    using Cons.prems(8) by simp
  have small: "cells_cnt_m t < 2 ^ 24" "2 * cells_cnt_m t < bucket_count t"
    using Cons.prems(3,6,7) by simp_all
  from insert_element_linear_new [OF Cons.prems(1) Cons.prems(4) Cons.prems(5) small new]
  obtain p where p: "p < bucket_count t" "data_m t ! p = FREE"
    and ins: "insert_element Linear v t = Some (Inr (place t p v))"
    by blast
  let ?t1 = "place t p v"
  have cnt1: "size_m ?t1 = size_m t + 1" "cells_cnt_m ?t1 = cells_cnt_m t + 1"
    using small(1) Cons.prems(3) by (simp_all add: place_counters)
  from emplace_of_insert_element [OF ins]
  obtain r where em: "emplace Linear t v = Some (Inr (r, ?t1))" by blast
  have pl: "p < length (data_m t)" using p(1) by (simp add: bucket_count_def)
  have lv: "set (live (data_m ?t1)) = insert v (set (live (data_m t)))"
    "length (live (data_m ?t1)) = Suc (length (live (data_m t)))"
    using live_update_FREE [OF pl p(2), of v] by (simp_all add: place_fields cnt1)
  have uq: "(\<forall>k'\<in>set (map ?k rest). \<not> equal_m t (?k v) k')"
    "unique_keys (equal_m t) (map ?k rest)"
    using unique_keys_Cons_D [of "equal_m t" "?k v" "map ?k rest"] Cons.prems(9) by simp_all
  have a1: "cells_cnt_m ?t1 = occupied_cells (data_m ?t1)"
    using occupied_cells_update_FREE [OF pl p(2), of v] Cons.prems(1) by (simp add: place_fields cnt1)
  have a2: "size_m ?t1 = length (live (data_m ?t1))"
    using lv(2) Cons.prems(2) by (simp add: place_fields cnt1)
  have a3: "cells_cnt_m ?t1 = size_m ?t1"
    using Cons.prems(3) by (simp add: place_fields cnt1)
  have a4: "bucket_count ?t1 \<le> size_t_mod" using Cons.prems(4) by (simp add: place_fields cnt1)
  have a5: "to_float (bucket_count ?t1) = bucket_count ?t1"
    using Cons.prems(5) by (simp add: place_fields cnt1)
  have a6: "size_m ?t1 + length rest < 2 ^ 24"
    using Cons.prems(6) by (simp add: place_fields cnt1)
  have a7: "2 * (size_m ?t1 + length rest) \<le> bucket_count ?t1"
    using Cons.prems(7) by (simp add: place_fields cnt1)
  have a8: "\<forall>w\<in>set (live (data_m ?t1)). \<forall>v\<in>set rest.
            \<not> equal_m ?t1 (key_from_value_m ?t1 w) (key_from_value_m ?t1 v)"
    using Cons.prems(8) uq(1) lv(1) by (auto simp: place_fields cnt1)
  have a9: "unique_keys (equal_m ?t1) (map (key_from_value_m ?t1) rest)"
    using uq(2) by (simp add: place_fields cnt1)
  from Cons.IH [OF a1 a2 a3 a4 a5 a6 a7 a8 a9]
  obtain t' where t': "insert_range Linear ?t1 rest = Some (Inr t')"
    "bucket_count t' = bucket_count ?t1" "cells_cnt_m t' = size_m t'"
    "size_m t' = size_m ?t1 + length rest"
    "set (live (data_m t')) = set (live (data_m ?t1)) \<union> set rest"
    by blast
  have "insert_range Linear t (v # rest) = Some (Inr t')"
    using em t'(1) by simp
  moreover have "set (live (data_m t')) = set (live (data_m t)) \<union> set (v # rest)"
    using t'(5) lv(1) by auto
  ultimately show ?case
    using t'(2-4) by (simp add: place_fields cnt1)
qed

lemma rehash_linear:
  assumes inv: "table_inv t" and ne: "count \<noteq> bucket_count t"
    and cnt: "to_float count = count" "count \<le> size_t_mod"
  shows "\<exists>t'. rehash Linear count t = Some (Inr t')
           \<and> bucket_count t' = max count (2 * size_m t)
           \<and> DELETED \<notin> set (data_m t')
           \<and> cells_cnt_m t' = occupied_cells (data_m t')
           \<and> size_m t' = length (live (data_m t'))
           \<and> cells_cnt_m t' = size_m t'
           \<and> size_m t' = size_m t
           \<and> set (live (data_m t')) = set (live (data_m t))
           \<and> hash_m t' = hash_m t \<and> equal_m t' = equal_m t
           \<and> key_from_value_m t' = key_from_value_m t"
proof -
  have sz: "size_m t = length (live (data_m t))" and N: "bucket_count t < 2 ^ 24"
    and uq: "unique_keys (equal_m t) (map (key_from_value_m t) (live (data_m t)))"
    using inv by (simp_all add: table_inv_def)
  have szN: "size_m t \<le> bucket_count t"
    using sz length_live_le [of "data_m t"] by (simp add: bucket_count_def)
  then have szs: "size_m t < 2 ^ 24" using N by simp
  define c where "c = max count (2 * size_m t)"
  have c_eq: "(if to_float count < div_max_load_factor (size_m t)
               then div_max_load_factor (size_m t) else count) = c"
    using cnt(1) szs by (auto simp: c_def div_max_load_factor_def to_float_small)
  define t0 where "t0 = t\<lparr>data_m := replicate c FREE, size_m := 0, cells_cnt_m := 0\<rparr>"
  have rh: "rehash Linear count t = reinsert Linear (data_m t) t0"
    using ne by (simp add: rehash_unfold c_eq t0_def)
  have f0: "hash_m t0 = hash_m t" "equal_m t0 = equal_m t"
    "key_from_value_m t0 = key_from_value_m t" "data_m t0 = replicate c FREE"
    "size_m t0 = 0" "cells_cnt_m t0 = 0" "bucket_count t0 = c"
    by (simp_all add: t0_def bucket_count_def)
  have cfl: "to_float c = c"
  proof (cases "count < 2 * size_m t")
    case True
    then have "c = 2 * size_m t" by (simp add: c_def)
    then show ?thesis using to_float_double [OF szs] by simp
  next
    case False
    then have "c = count" by (simp add: c_def)
    then show ?thesis using cnt(1) by simp
  qed
  have cM: "c \<le> size_t_mod"
    using cnt(2) szs by (auto simp: c_def size_t_mod_def)
  have b1: "cells_cnt_m t0 = occupied_cells (data_m t0)"
    by (simp add: f0 occupied_cells_replicate_FREE)
  have b2: "size_m t0 = length (live (data_m t0))"
    by (simp add: f0 live_replicate_FREE)
  have b3: "cells_cnt_m t0 = size_m t0" by (simp add: f0)
  have b4: "DELETED \<notin> set (data_m t0)" by (simp add: f0)
  have b5: "bucket_count t0 \<le> size_t_mod" using cM by (simp add: f0)
  have b6: "to_float (bucket_count t0) = bucket_count t0" using cfl by (simp add: f0)
  have b7: "size_m t0 + length (live (data_m t)) < 2 ^ 24" using sz szs by (simp add: f0)
  have b8: "2 * (size_m t0 + length (live (data_m t))) \<le> bucket_count t0"
    using sz by (simp add: f0 c_def)
  have b9: "\<forall>w\<in>set (live (data_m t0)). \<forall>v\<in>set (live (data_m t)).
            \<not> equal_m t0 (key_from_value_m t0 w) (key_from_value_m t0 v)"
    by (simp add: f0 live_replicate_FREE)
  have b10: "unique_keys (equal_m t0) (map (key_from_value_m t0) (live (data_m t)))"
    using uq by (simp add: f0)
  from reinsert_linear [OF b1 b2 b3 b4 b5 b6 b7 b8 b9 b10]
  obtain t' where t': "reinsert Linear (data_m t) t0 = Some (Inr t')"
    "bucket_count t' = bucket_count t0" "DELETED \<notin> set (data_m t')"
    "cells_cnt_m t' = occupied_cells (data_m t')" "size_m t' = length (live (data_m t'))"
    "cells_cnt_m t' = size_m t'" "size_m t' = size_m t0 + length (live (data_m t))"
    "set (live (data_m t')) = set (live (data_m t0)) \<union> set (live (data_m t))"
    "hash_m t' = hash_m t0" "equal_m t' = equal_m t0"
    "key_from_value_m t' = key_from_value_m t0"
    by blast
  have "rehash Linear count t = Some (Inr t')" using rh t'(1) by simp
  moreover have "bucket_count t' = max count (2 * size_m t)" using t'(2) by (simp add: f0 c_def)
  moreover have "size_m t' = size_m t" using t'(7) sz by (simp add: f0)
  moreover have "set (live (data_m t')) = set (live (data_m t))"
    using t'(8) by (simp add: f0 live_replicate_FREE)
  ultimately show ?thesis using t'(3-6) t'(9-11) by (simp add: f0)
qed

lemma insert_element_new_partial:
  assumes res: "insert_element pol v t = Some r"
    and N: "to_float (bucket_count t) = bucket_count t"
    and small: "cells_cnt_m t < 2 ^ 24" "2 * cells_cnt_m t < bucket_count t"
    and new: "\<forall>w\<in>set (live (data_m t)). \<not> equal_m t (key_from_value_m t w) (key_from_value_m t v)"
  shows "\<exists>p<bucket_count t. data_m t ! p = FREE \<and> r = Inr (place t p v)"
proof -
  let ?key = "key_from_value_m t v"
  let ?it = "CollisionPolicy_ctor pol (bucket_count t) (hash_m t ?key mod bucket_count t)"
  have chk: "check_size pol t = Some (Inr t)"
    using N small by (simp add: check_size_unfold exceeds_max_load_def to_float_small)
  have pos: "0 < bucket_count t" using small(2) by simp
  from res chk pos have bind:
    "Option.bind (probe_loop t ?key ?it)
       (\<lambda>pr. case pr of Found i \<Rightarrow> Some (Inr t) | Vacant i \<Rightarrow> Some (Inr (place t i v))) = Some r"
    by (simp add: insert_element_unfold)
  then obtain pr where pr: "probe_loop t ?key ?it = Some pr"
    and r: "(case pr of Found i \<Rightarrow> Some (Inr t) | Vacant i \<Rightarrow> Some (Inr (place t i v))) = Some r"
    by (cases "probe_loop t ?key ?it") simp_all
  from probe_loop_result [OF pr] obtain i where
    alt: "(pr = Found (deref (advance i ?it)) \<and> holds_key t ?key (data_m t ! deref (advance i ?it)))
           \<or> (pr = Vacant (deref (advance i ?it)) \<and> is_FREE (data_m t ! deref (advance i ?it)))"
    by blast
  let ?p = "deref (advance i ?it)"
  have p: "?p < bucket_count t"
    using candidate_less [OF pos, of pol "hash_m t ?key mod bucket_count t" i]
    by (simp add: candidate_def)
  have "\<not> holds_key t ?key (data_m t ! ?p)"
    using new p by (intro no_live_key_no_slot) (simp_all add: bucket_count_def)
  with alt have "pr = Vacant ?p" and free: "is_FREE (data_m t ! ?p)" by blast+
  with r have "r = Inr (place t ?p v)" by simp
  with p free show ?thesis by (auto simp: is_FREE_iff)
qed

lemma reinsert_partial:
  assumes "reinsert pol old t = Some r"
    and "cells_cnt_m t = occupied_cells (data_m t)"
    and "size_m t = length (live (data_m t))"
    and "cells_cnt_m t = size_m t"
    and "DELETED \<notin> set (data_m t)"
    and "to_float (bucket_count t) = bucket_count t"
    and "size_m t + length (live old) < 2 ^ 24"
    and "2 * (size_m t + length (live old)) \<le> bucket_count t"
    and "\<forall>w\<in>set (live (data_m t)). \<forall>v\<in>set (live old).
            \<not> equal_m t (key_from_value_m t w) (key_from_value_m t v)"
    and "unique_keys (equal_m t) (map (key_from_value_m t) (live old))"
  shows "\<exists>t'. r = Inr t'
           \<and> bucket_count t' = bucket_count t
           \<and> DELETED \<notin> set (data_m t')
           \<and> cells_cnt_m t' = size_m t'
           \<and> size_m t' = size_m t + length (live old)
           \<and> set (live (data_m t')) = set (live (data_m t)) \<union> set (live old)"
  using assms
proof (induction old arbitrary: t)
  case Nil
  then show ?case by (auto simp: reinsert_Nil)
next
  case (Cons e rest)
  show ?case
  proof (cases e)
    case FREE
    with Cons show ?thesis by (simp add: reinsert_FREE)
  next
    case DELETED
    with Cons show ?thesis by (simp add: reinsert_DELETED)
  next
    case (DATA v)
    note prems = Cons.prems [unfolded DATA]
    let ?k = "key_from_value_m t"
    from prems(1) obtain r1 where r1: "insert_element pol v t = Some r1"
      and cont: "(case r1 of Inl e \<Rightarrow> Some (Inl e) | Inr t' \<Rightarrow> reinsert pol rest t') = Some r"
      by (cases "insert_element pol v t") (simp_all add: reinsert_DATA)
    have new: "\<forall>w\<in>set (live (data_m t)). \<not> equal_m t (?k w) (?k v)"
      using prems(9) by simp
    have small: "cells_cnt_m t < 2 ^ 24" "2 * cells_cnt_m t < bucket_count t"
      using prems(4,7,8) by simp_all
    from insert_element_new_partial [OF r1 prems(6) small new]
    obtain p where p: "p < bucket_count t" "data_m t ! p = FREE" and r1_eq: "r1 = Inr (place t p v)"
      by blast
    let ?t1 = "place t p v"
    have cnt1: "size_m ?t1 = size_m t + 1" "cells_cnt_m ?t1 = cells_cnt_m t + 1"
      using small(1) prems(4) by (simp_all add: place_counters)
    from cont r1_eq have rest: "reinsert pol rest ?t1 = Some r" by simp
    have pl: "p < length (data_m t)" using p(1) by (simp add: bucket_count_def)
    have lv: "set (live (data_m ?t1)) = insert v (set (live (data_m t)))"
      "length (live (data_m ?t1)) = Suc (length (live (data_m t)))"
      using live_update_FREE [OF pl p(2), of v] by (simp_all add: place_fields cnt1)
    have uq: "(\<forall>k'\<in>set (map ?k (live rest)). \<not> equal_m t (?k v) k')"
      "unique_keys (equal_m t) (map ?k (live rest))"
      using unique_keys_Cons_D [of "equal_m t" "?k v" "map ?k (live rest)"] prems(10) by simp_all
    have a1: "cells_cnt_m ?t1 = occupied_cells (data_m ?t1)"
      using occupied_cells_update_FREE [OF pl p(2), of v] prems(2) by (simp add: place_fields cnt1)
    have a2: "size_m ?t1 = length (live (data_m ?t1))"
      using lv(2) prems(3) by (simp add: place_fields cnt1)
    have a3: "cells_cnt_m ?t1 = size_m ?t1"
      using prems(4) by (simp add: place_fields cnt1)
    have a4: "DELETED \<notin> set (data_m ?t1)"
    proof -
      have "set (data_m ?t1) \<subseteq> insert (DATA v) (set (data_m t))"
        by (simp add: place_fields cnt1 set_update_subset_insert)
      with prems(5) show ?thesis by auto
    qed
    have a6: "to_float (bucket_count ?t1) = bucket_count ?t1"
      using prems(6) by (simp add: place_fields cnt1)
    have a7: "size_m ?t1 + length (live rest) < 2 ^ 24"
      using prems(7) by (simp add: place_fields cnt1)
    have a8: "2 * (size_m ?t1 + length (live rest)) \<le> bucket_count ?t1"
      using prems(8) by (simp add: place_fields cnt1)
    have a9: "\<forall>w\<in>set (live (data_m ?t1)). \<forall>v\<in>set (live rest).
              \<not> equal_m ?t1 (key_from_value_m ?t1 w) (key_from_value_m ?t1 v)"
      using prems(9) uq(1) lv(1) by (auto simp: place_fields cnt1)
    have a10: "unique_keys (equal_m ?t1) (map (key_from_value_m ?t1) (live rest))"
      using uq(2) by (simp add: place_fields cnt1)
    from Cons.IH [OF rest a1 a2 a3 a4 a6 a7 a8 a9 a10]
    obtain t' where t': "r = Inr t'"
      "bucket_count t' = bucket_count ?t1" "DELETED \<notin> set (data_m t')"
      "cells_cnt_m t' = size_m t'" "size_m t' = size_m ?t1 + length (live rest)"
      "set (live (data_m t')) = set (live (data_m ?t1)) \<union> set (live rest)"
      by blast
    have "set (live (data_m t')) = set (live (data_m t)) \<union> set (live (DATA v # rest))"
      using t'(6) lv(1) by auto
    moreover have "size_m t' = size_m t + length (live (DATA v # rest))"
      using t'(5) by (simp add: place_fields cnt1)
    ultimately show ?thesis
      unfolding DATA using t'(1-4) by (simp add: place_fields cnt1)
  qed
qed

lemma rehash_partial:
  assumes res: "rehash pol count t = Some r"
    and inv: "table_inv t" and ne: "count \<noteq> bucket_count t"
    and cnt: "to_float count = count"
  shows "\<exists>t'. r = Inr t'
           \<and> bucket_count t' = max count (2 * size_m t)
           \<and> DELETED \<notin> set (data_m t')
           \<and> cells_cnt_m t' = size_m t'
           \<and> size_m t' = size_m t
           \<and> set (live (data_m t')) = set (live (data_m t))"
proof -
  have sz: "size_m t = length (live (data_m t))" and N: "bucket_count t < 2 ^ 24"
    and uq: "unique_keys (equal_m t) (map (key_from_value_m t) (live (data_m t)))"
    using inv by (simp_all add: table_inv_def)
  have szN: "size_m t \<le> bucket_count t"
    using sz length_live_le [of "data_m t"] by (simp add: bucket_count_def)
  then have szs: "size_m t < 2 ^ 24" using N by simp
  define c where "c = max count (2 * size_m t)"
  have c_eq: "(if to_float count < div_max_load_factor (size_m t)
               then div_max_load_factor (size_m t) else count) = c"
    using cnt szs by (auto simp: c_def div_max_load_factor_def to_float_small)
  define t0 where "t0 = t\<lparr>data_m := replicate c FREE, size_m := 0, cells_cnt_m := 0\<rparr>"
  have rh: "reinsert pol (data_m t) t0 = Some r"
    using res ne by (simp add: rehash_unfold c_eq t0_def)
  have f0: "hash_m t0 = hash_m t" "equal_m t0 = equal_m t"
    "key_from_value_m t0 = key_from_value_m t" "data_m t0 = replicate c FREE"
    "size_m t0 = 0" "cells_cnt_m t0 = 0" "bucket_count t0 = c"
    by (simp_all add: t0_def bucket_count_def)
  have cfl: "to_float c = c"
  proof (cases "count < 2 * size_m t")
    case True
    then have "c = 2 * size_m t" by (simp add: c_def)
    then show ?thesis using to_float_double [OF szs] by simp
  next
    case False
    then have "c = count" by (simp add: c_def)
    then show ?thesis using cnt by simp
  qed
  have b1: "cells_cnt_m t0 = occupied_cells (data_m t0)"
    by (simp add: f0 occupied_cells_replicate_FREE)
  have b2: "size_m t0 = length (live (data_m t0))"
    by (simp add: f0 live_replicate_FREE)
  have b3: "cells_cnt_m t0 = size_m t0" by (simp add: f0)
  have b4: "DELETED \<notin> set (data_m t0)" by (simp add: f0)
  have b6: "to_float (bucket_count t0) = bucket_count t0" using cfl by (simp add: f0)
  have b7: "size_m t0 + length (live (data_m t)) < 2 ^ 24" using sz szs by (simp add: f0)
  have b8: "2 * (size_m t0 + length (live (data_m t))) \<le> bucket_count t0"
    using sz by (simp add: f0 c_def)
  have b9: "\<forall>w\<in>set (live (data_m t0)). \<forall>v\<in>set (live (data_m t)).
            \<not> equal_m t0 (key_from_value_m t0 w) (key_from_value_m t0 v)"
    by (simp add: f0 live_replicate_FREE)
  have b10: "unique_keys (equal_m t0) (map (key_from_value_m t0) (live (data_m t)))"
    using uq by (simp add: f0)
  from reinsert_partial [OF rh b1 b2 b3 b4 b6 b7 b8 b9 b10]
  obtain t' where t': "r = Inr t'"
    "bucket_count t' = bucket_count t0" "DELETED \<notin> set (data_m t')"
    "cells_cnt_m t' = size_m t'" "size_m t' = size_m t0 + length (live (data_m t))"
    "set (live (data_m t')) = set (live (data_m t0)) \<union> set (live (data_m t))"
    by blast
  have "bucket_count t' = max count (2 * size_m t)" using t'(2) by (simp add: f0 c_def)
  moreover have "size_m t' = size_m t" using t'(5) sz by (simp add: f0)
  moreover have "set (live (data_m t')) = set (live (data_m t))"
    using t'(6) by (simp add: f0 live_replicate_FREE)
  ultimately show ?thesis using t'(1,3,4) by simp
qed

lemma check_size_linear:
  assumes inv: "table_inv t"
  shows "\<exists>t1. check_size Linear t = Some (Inr t1)
           \<and> cells_cnt_m t1 = occupied_cells (data_m t1)
           \<and> 2 * cells_cnt_m t1 \<le> bucket_count t1
           \<and> bucket_count t1 \<le> size_t_mod
           \<and> (bucket_count t1 = bucket_count t \<or> bucket_count t1 = 2 * bucket_count t)"
proof -
  have sz: "size_m t = length (live (data_m t))" and N: "bucket_count t < 2 ^ 24"
    and cells: "cells_cnt_m t = occupied_cells (data_m t)"
    using inv by (simp_all add: table_inv_def)
  have cN: "cells_cnt_m t \<le> bucket_count t"
    using cells occupied_cells_le [of "data_m t"] by (simp add: bucket_count_def)
  have szN: "size_m t \<le> bucket_count t"
    using sz length_live_le [of "data_m t"] by (simp add: bucket_count_def)
  have ex: "exceeds_max_load (cells_cnt_m t) (bucket_count t) \<longleftrightarrow> bucket_count t < 2 * cells_cnt_m t"
    using N cN by (simp add: exceeds_max_load_def to_float_small)
  have NM: "bucket_count t \<le> size_t_mod" using N by (simp add: size_t_mod_def)
  show ?thesis
  proof (cases "bucket_count t < 2 * cells_cnt_m t")
    case False
    then have "check_size Linear t = Some (Inr t)" by (simp add: check_size_unfold ex)
    then show ?thesis using False cells NM by auto
  next
    case True
    then have pos: "0 < bucket_count t" using cN by simp
    have d: "div_max_load_factor (bucket_count t) = 2 * bucket_count t"
      using N by (simp add: div_max_load_factor_def to_float_small)
    have ne: "2 * bucket_count t \<noteq> bucket_count t" using pos by simp
    have c1: "to_float (2 * bucket_count t) = 2 * bucket_count t" using N by (rule to_float_double)
    have c2: "2 * bucket_count t \<le> size_t_mod" using N by (simp add: size_t_mod_def)
    from rehash_linear [OF inv ne c1 c2]
    obtain t' where t': "rehash Linear (2 * bucket_count t) t = Some (Inr t')"
      "bucket_count t' = max (2 * bucket_count t) (2 * size_m t)"
      "cells_cnt_m t' = occupied_cells (data_m t')" "cells_cnt_m t' = size_m t'"
      "size_m t' = size_m t"
      by blast
    have "check_size Linear t = Some (Inr t')"
      using True t'(1) by (simp add: check_size_unfold ex d)
    moreover have "bucket_count t' = 2 * bucket_count t" using t'(2) szN by simp
    moreover have "2 * cells_cnt_m t' \<le> bucket_count t'" using t'(2,4,5) by simp
    ultimately show ?thesis using t'(3) c2 by auto
  qed
qed

lemma emplace_linear_returns:
  assumes inv: "table_inv t" and pos: "0 < bucket_count t"
  shows "\<exists>r. emplace Linear t v = Some (Inr r)"
proof -
  from check_size_linear [OF inv]
  obtain t1 where t1: "check_size Linear t = Some (Inr t1)"
    "cells_cnt_m t1 = occupied_cells (data_m t1)" "2 * cells_cnt_m t1 \<le> bucket_count t1"
    "bucket_count t1 \<le> size_t_mod"
    "bucket_count t1 = bucket_count t \<or> bucket_count t1 = 2 * bucket_count t"
    by blast
  have pos1: "0 < bucket_count t1" using t1(5) pos by auto
  have "occupied_cells (data_m t1) < bucket_count t1"
    using t1(2,3) pos1 by linarith
  then have "occupied_cells (data_m t1) < length (data_m t1)"
    by (simp only: bucket_count_def)
  then have fr: "\<exists>f<bucket_count t1. is_FREE (data_m t1 ! f)"
    unfolding bucket_count_def by (rule exists_FREE)
  let ?key = "key_from_value_m t1 v"
  let ?s = "hash_m t1 ?key mod bucket_count t1"
  from linear_probe_stops [OF pos1 t1(4) fr, of ?key ?s]
  obtain pr where "probe_loop t1 ?key (CollisionPolicy_ctor Linear (bucket_count t1) ?s) = Some pr"
    by blast
  then show ?thesis
    using t1(1) pos1 by (cases pr) (auto simp: emplace_def)
qed

lemma find_linear_returns:
  assumes inv: "table_inv t" and fr: "cells_cnt_m t < bucket_count t"
  shows "\<exists>p. find_key Linear t key = Some (Inr p)"
proof -
  have N: "bucket_count t < 2 ^ 24" and cells: "cells_cnt_m t = occupied_cells (data_m t)"
    using inv by (simp_all add: table_inv_def)
  have NM: "bucket_count t \<le> size_t_mod" using N by (simp add: size_t_mod_def)
  have pos: "0 < bucket_count t" using fr by simp
  have "occupied_cells (data_m t) < length (data_m t)"
    using cells fr by (simp add: bucket_count_def)
  then have "\<exists>f<bucket_count t. is_FREE (data_m t ! f)"
    unfolding bucket_count_def by (rule exists_FREE)
  from linear_probe_stops [OF pos NM this, of key "hash_m t key"]
  obtain pr where "probe_loop t key (CollisionPolicy_ctor Linear (bucket_count t) (hash_m t key)) = Some pr"
    by blast
  then show ?thesis
    using pos by (cases pr) (simp_all add: find_key_def)
qed

section \<open>optimal_size\<close>

lemma and_top_bit_nat:
  fixes sz :: nat
  assumes "sz < 2 ^ Suc j"
  shows "sz AND 2 ^ j = 0 \<longleftrightarrow> sz < 2 ^ j"
proof -
  have "sz div 2 ^ j < 2"
    using assms by (simp add: less_mult_imp_div_less mult.commute)
  then have "odd (sz div 2 ^ j) \<longleftrightarrow> sz div 2 ^ j = 1"
    by (cases "sz div 2 ^ j = 0") auto
  also have "\<dots> \<longleftrightarrow> \<not> sz < 2 ^ j"
    using \<open>sz div 2 ^ j < 2\<close> by (auto simp: div_eq_0_iff dest: less_2_cases)
  finally show ?thesis
    by (simp add: and_exp_eq_0_iff_not_bit bit_iff_odd)
qed

lemma optimal_size_loop_pow2:
  "0 < sz \<Longrightarrow> sz < 2 ^ Suc j \<Longrightarrow>
     \<exists>m\<le>j. optimal_size_loop sz (2 ^ j) = Some (2 ^ m) \<and> 2 ^ m \<le> sz \<and> sz < 2 ^ Suc m"
proof (induction j)
  case 0
  then have "sz = 1" by simp
  then show ?case by (subst optimal_size_loop.simps) simp
next
  case (Suc j)
  show ?case
  proof (cases "sz < 2 ^ Suc j")
    case True
    from Suc.IH [OF Suc.prems(1) True]
    obtain m where m: "m \<le> j" "optimal_size_loop sz (2 ^ j) = Some (2 ^ m)"
      "2 ^ m \<le> sz" "sz < 2 ^ Suc m"
      by blast
    have "sz AND 2 ^ Suc j = 0"
      using and_top_bit_nat [OF Suc.prems(2)] True by simp
    then have "optimal_size_loop sz (2 ^ Suc j) = optimal_size_loop sz (2 ^ Suc j div 2)"
      by (subst optimal_size_loop.simps) simp
    then have "optimal_size_loop sz (2 ^ Suc j) = Some (2 ^ m)" using m(2) by simp
    then show ?thesis using m(1,3,4) le_SucI by blast
  next
    case False
    then have "sz AND 2 ^ Suc j \<noteq> 0"
      using and_top_bit_nat [OF Suc.prems(2)] by simp
    then have "optimal_size_loop sz (2 ^ Suc j) = Some (2 ^ Suc j)"
      by (subst optimal_size_loop.simps) simp
    then show ?thesis using False Suc.prems(2) by (intro exI [of _ "Suc j"]) simp
  qed
qed

lemma optimal_size_pow2:
  assumes "0 < sz" "sz < 2 ^ 63"
  shows "\<exists>m. optimal_size sz = Some (2 ^ m) \<and> sz < 2 ^ m \<and> 2 ^ m \<le> 2 * sz"
proof -
  have "sz < 2 ^ Suc 63" using assms(2) by simp
  from optimal_size_loop_pow2 [OF assms(1) this]
  obtain m where m: "m \<le> 63" "optimal_size_loop sz (2 ^ 63) = Some (2 ^ m)"
    "2 ^ m \<le> sz" "sz < 2 ^ Suc m"
    by blast
  have lt: "(2::nat) ^ m < 2 ^ 63" using m(3) assms(2) by simp
  have "m < 63"
  proof (rule ccontr)
    assume "\<not> m < 63"
    then have "63 \<le> m" by simp
    then have "(2::nat) ^ 63 \<le> 2 ^ m" by (rule power_increasing) simp
    with lt show False by simp
  qed
  then have "Suc m \<le> 63" by simp
  then have "(2::nat) ^ Suc m \<le> 2 ^ 63" by (rule power_increasing) simp
  then have "(2::nat) ^ Suc m < 2 ^ 64" by simp
  then have "((2::nat) ^ m * 2) mod 2 ^ 64 = 2 ^ Suc m" by (simp add: mult.commute)
  then have "optimal_size sz = Some (2 ^ Suc m)"
    using m(2) by (simp add: optimal_size_def size_t_mod_def)
  then show ?thesis using m(3,4) by (intro exI [of _ "Suc m"]) simp
qed

section \<open>find\<close>

text \<open>
  \<^verbatim>\<open>find\<close> along its own probe sequence, which starts at the hash itself
  (\<^verbatim>\<open>CollisionPolicy(data_.size(), hash_(key))\<close>): when the first \<open>i\<close> candidates are neither \<^verbatim>\<open>FREE\<close>
  nor hold an equal key, and the next one holds an equal key, its position is returned; when
  the next one is \<^verbatim>\<open>FREE\<close>, the end sentinel is returned.  A \<^verbatim>\<open>DELETED\<close> slot is among those passed
  over.  \<^verbatim>\<open>emplace\<close> and \<^verbatim>\<open>insert(Element&)\<close> start from the hash modulo the slot count instead; the
  two sequences are the same when the slot count divides \<open>2 ^ 64\<close>.
\<close>

lemma find_first_match_or_free:
  assumes "0 < bucket_count t"
    and "\<forall>j<i. passes t key (slot_at pol t (hash_m t key) j)"
  shows "(holds_key t key (slot_at pol t (hash_m t key) i)
            \<longrightarrow> find_key pol t key = Some (Inr (candidate pol (bucket_count t) (hash_m t key) i)))
       \<and> (is_FREE (slot_at pol t (hash_m t key) i)
            \<longrightarrow> find_key pol t key = Some (Inr (bucket_count t)))
       \<and> passes t key DELETED
       \<and> (bucket_count t dvd size_t_mod
            \<longrightarrow> candidate pol (bucket_count t) (hash_m t key mod bucket_count t) i
                  = candidate pol (bucket_count t) (hash_m t key) i)"
proof -
  let ?it = "CollisionPolicy_ctor pol (bucket_count t) (hash_m t key)"
  have "\<forall>j<i. \<not> is_FREE (data_m t ! deref (advance j ?it)) \<and> \<not> holds_key t key (data_m t ! deref (advance j ?it))"
    using assms(2) by (simp add: passes_def slot_at_def candidate_def)
  then have "probe_loop t key ?it = probe_loop t key (advance i ?it)"
    by (rule probe_loop_skip)
  then have "(holds_key t key (slot_at pol t (hash_m t key) i)
            \<longrightarrow> find_key pol t key = Some (Inr (candidate pol (bucket_count t) (hash_m t key) i)))
       \<and> (is_FREE (slot_at pol t (hash_m t key) i)
            \<longrightarrow> find_key pol t key = Some (Inr (bucket_count t)))
       \<and> passes t key DELETED"
    using assms(1)
    by (auto simp: find_key_def probe_loop_found probe_loop_vacant slot_at_def candidate_def passes_def)
  then show ?thesis using candidate_reduced_start by blast
qed

lemma find_first_match_or_free_witness:
  "find_key Linear
     \<lparr>hash_m = \<lambda>k::nat. k, equal_m = (=),
      data_m = [FREE, DATA (1::nat), DELETED, DATA 9, FREE, FREE, FREE, FREE],
      size_m = 2, cells_cnt_m = 3, key_from_value_m = \<lambda>v. v\<rparr> 9 = Some (Inr 3)
   \<and> candidate Linear 8 (9 mod 8) (Suc (Suc 0)) = candidate Linear 8 9 (Suc (Suc 0))"
  using find_first_match_or_free
    [of "\<lparr>hash_m = \<lambda>k::nat. k, equal_m = (=),
      data_m = [FREE, DATA (1::nat), DELETED, DATA 9, FREE, FREE, FREE, FREE],
      size_m = 2, cells_cnt_m = 3, key_from_value_m = \<lambda>v. v\<rparr>" "Suc (Suc 0)" 9 Linear]
  by (simp add: run_defs All_less_Suc)

text \<open>
  C2 at a failing input.  The claim says that \<^verbatim>\<open>find\<close> walks the same probe sequence as the
  insert.  Take a table of 10 slots (\<^verbatim>\<open>rehash(10)\<close> on an empty table of 8 slots) with linear
  probing and the identity hash, and insert the keys 5 and \<open>2 ^ 64 - 1\<close>.  \<^verbatim>\<open>emplace\<close> starts at the
  hash modulo 10, which is 5 for both keys, so the second key is stored in slot 6.  \<^verbatim>\<open>find\<close>
  starts from the hash itself: its first candidate is slot 5 and its second one is
  \<open>(2 ^ 64 - 1 + 1) mod 2 ^ 64 mod 10 = 0\<close>, a \<^verbatim>\<open>FREE\<close> slot, so it returns the end sentinel 10 for a
  key that is stored, while \<^verbatim>\<open>emplace\<close> of the same key finds it in slot 6.
\<close>

theorem find_misses_stored_key:
  "rehash Linear 10
     \<lparr>hash_m = \<lambda>k::nat. k, equal_m = (=),
      data_m = [FREE, FREE, FREE, FREE, FREE, FREE, FREE, FREE :: nat Element],
      size_m = 0, cells_cnt_m = 0, key_from_value_m = \<lambda>v. v\<rparr>
     = Some (Inr \<lparr>hash_m = \<lambda>k::nat. k, equal_m = (=),
          data_m = [FREE, FREE, FREE, FREE, FREE, FREE, FREE, FREE, FREE, FREE :: nat Element],
          size_m = 0, cells_cnt_m = 0, key_from_value_m = \<lambda>v. v\<rparr>)
   \<and> insert_range Linear
        \<lparr>hash_m = \<lambda>k::nat. k, equal_m = (=),
         data_m = [FREE, FREE, FREE, FREE, FREE, FREE, FREE, FREE, FREE, FREE :: nat Element],
         size_m = 0, cells_cnt_m = 0, key_from_value_m = \<lambda>v. v\<rparr>
        [5, 18446744073709551615]
     = Some (Inr \<lparr>hash_m = \<lambda>k::nat. k, equal_m = (=),
          data_m = [FREE, FREE, FREE, FREE, FREE, DATA 5, DATA 18446744073709551615,
                    FREE, FREE, FREE],
          size_m = 2, cells_cnt_m = 2, key_from_value_m = \<lambda>v. v\<rparr>)
   \<and> find_key Linear
        \<lparr>hash_m = \<lambda>k::nat. k, equal_m = (=),
         data_m = [FREE, FREE, FREE, FREE, FREE, DATA 5, DATA 18446744073709551615,
                   FREE, FREE, FREE],
         size_m = 2, cells_cnt_m = 2, key_from_value_m = \<lambda>v. v\<rparr> 18446744073709551615
     = Some (Inr 10)
   \<and> bucket_count
        \<lparr>hash_m = \<lambda>k::nat. k, equal_m = (=),
         data_m = [FREE, FREE, FREE, FREE, FREE, DATA 5, DATA 18446744073709551615,
                   FREE, FREE, FREE],
         size_m = 2, cells_cnt_m = 2, key_from_value_m = \<lambda>v. v\<rparr> = 10
   \<and> map_option (map_sum id fst)
        (emplace Linear
           \<lparr>hash_m = \<lambda>k::nat. k, equal_m = (=),
            data_m = [FREE, FREE, FREE, FREE, FREE, DATA 5, DATA 18446744073709551615,
                      FREE, FREE, FREE],
            size_m = 2, cells_cnt_m = 2, key_from_value_m = \<lambda>v. v\<rparr> 18446744073709551615)
     = Some (Inr (6, False))"
  by (simp add: run_defs)

section \<open>emplace\<close>

text \<open>
  C1, as the code has it.  \<^verbatim>\<open>emplace\<close> first runs \<^verbatim>\<open>check_size\<close>: when \<^verbatim>\<open>cells_cnt_\<close> exceeds
  \<^verbatim>\<open>max_load_factor() * bucket_count()\<close> (compared as floats) it calls
  \<^verbatim>\<open>rehash(bucket_count() / max_load_factor())\<close>, and otherwise it leaves the table as it is.
  Whenever that check returns a table \<open>t1\<close> with at least one slot, the probe sequence is
  walked on \<open>t1\<close> from the hash of the key modulo the slot count of \<open>t1\<close>: when the first \<open>i\<close>
  candidates are neither \<^verbatim>\<open>FREE\<close> nor hold an equal key (a \<^verbatim>\<open>DELETED\<close> slot is passed over, never
  reused), then at a slot holding an equal key \<^verbatim>\<open>emplace\<close> returns that position with \<open>False\<close>
  and the table \<open>t1\<close>, and at a \<^verbatim>\<open>FREE\<close> slot it stores the value there, increments both
  counters (as \<^verbatim>\<open>size_t\<close>, modulo \<open>2 ^ 64\<close>) and returns the position with \<open>True\<close>.
\<close>

theorem emplace_after_check_size:
  assumes "check_size pol t = Some (Inr t1)" and "0 < bucket_count t1"
    and "st = hash_m t1 (key_from_value_m t1 v) mod bucket_count t1"
    and "\<forall>j<i. passes t1 (key_from_value_m t1 v) (slot_at pol t1 st j)"
  shows "(holds_key t1 (key_from_value_m t1 v) (slot_at pol t1 st i)
            \<longrightarrow> emplace pol t v = Some (Inr ((candidate pol (bucket_count t1) st i, False), t1)))
       \<and> (is_FREE (slot_at pol t1 st i)
            \<longrightarrow> emplace pol t v =
                  Some (Inr ((candidate pol (bucket_count t1) st i, True),
                    t1\<lparr>data_m := (data_m t1)[candidate pol (bucket_count t1) st i := DATA v],
                       size_m := (size_m t1 + 1) mod size_t_mod,
                       cells_cnt_m := (cells_cnt_m t1 + 1) mod size_t_mod\<rparr>)))
       \<and> passes t1 (key_from_value_m t1 v) DELETED
       \<and> (\<not> exceeds_max_load (cells_cnt_m t) (bucket_count t) \<longrightarrow> t1 = t)
       \<and> (exceeds_max_load (cells_cnt_m t) (bucket_count t)
            \<longrightarrow> rehash pol (div_max_load_factor (bucket_count t)) t = Some (Inr t1))"
proof -
  let ?key = "key_from_value_m t1 v"
  let ?it = "CollisionPolicy_ctor pol (bucket_count t1) st"
  have "\<forall>j<i. \<not> is_FREE (data_m t1 ! deref (advance j ?it)) \<and> \<not> holds_key t1 ?key (data_m t1 ! deref (advance j ?it))"
    using assms(4) by (simp add: passes_def slot_at_def candidate_def)
  then have skip: "probe_loop t1 ?key ?it = probe_loop t1 ?key (advance i ?it)"
    by (rule probe_loop_skip)
  have same: "\<not> exceeds_max_load (cells_cnt_m t) (bucket_count t) \<longrightarrow> t1 = t"
    using assms(1) by (simp add: check_size_unfold split: if_splits)
  have other: "exceeds_max_load (cells_cnt_m t) (bucket_count t)
            \<longrightarrow> rehash pol (div_max_load_factor (bucket_count t)) t = Some (Inr t1)"
    using assms(1) by (simp add: check_size_unfold split: if_splits)
  have em: "emplace pol t v =
      Option.bind (probe_loop t1 ?key (advance i ?it))
        (\<lambda>pr. case pr of Found i \<Rightarrow> Some (Inr ((i, False), t1))
                        | Vacant i \<Rightarrow> Some (Inr ((i, True), place t1 i v)))"
    using assms(1,2,3) skip by (simp add: emplace_def)
  have found: "holds_key t1 ?key (slot_at pol t1 st i)
            \<longrightarrow> emplace pol t v = Some (Inr ((candidate pol (bucket_count t1) st i, False), t1))"
    by (simp add: em probe_loop_found slot_at_def candidate_def)
  have vacant: "is_FREE (slot_at pol t1 st i)
            \<longrightarrow> emplace pol t v =
                  Some (Inr ((candidate pol (bucket_count t1) st i, True),
                    t1\<lparr>data_m := (data_m t1)[candidate pol (bucket_count t1) st i := DATA v],
                       size_m := (size_m t1 + 1) mod size_t_mod,
                       cells_cnt_m := (cells_cnt_m t1 + 1) mod size_t_mod\<rparr>))"
    by (simp add: em probe_loop_vacant slot_at_def candidate_def place_def)
  have del: "passes t1 ?key DELETED" by (simp add: passes_def)
  from found vacant del same other show ?thesis by blast
qed

theorem emplace_after_check_size_witness:
  "emplace Linear
     \<lparr>hash_m = \<lambda>k::nat. k, equal_m = (=),
      data_m = [FREE, DATA (1::nat), DELETED, DATA 3, FREE, FREE, FREE, FREE],
      size_m = 2, cells_cnt_m = 3, key_from_value_m = \<lambda>v. v\<rparr> 9
   = Some (Inr ((4, True),
       \<lparr>hash_m = \<lambda>k::nat. k, equal_m = (=),
        data_m = [FREE, DATA (1::nat), DELETED, DATA 3, DATA 9, FREE, FREE, FREE],
        size_m = 3, cells_cnt_m = 4, key_from_value_m = \<lambda>v. v\<rparr>))"
  using emplace_after_check_size
    [of Linear
      "\<lparr>hash_m = \<lambda>k::nat. k, equal_m = (=),
      data_m = [FREE, DATA (1::nat), DELETED, DATA 3, FREE, FREE, FREE, FREE],
      size_m = 2, cells_cnt_m = 3, key_from_value_m = \<lambda>v. v\<rparr>"
      "\<lparr>hash_m = \<lambda>k::nat. k, equal_m = (=),
      data_m = [FREE, DATA (1::nat), DELETED, DATA 3, FREE, FREE, FREE, FREE],
      size_m = 2, cells_cnt_m = 3, key_from_value_m = \<lambda>v. v\<rparr>"
      1 9 "Suc (Suc (Suc 0))"]
  by (simp add: run_defs All_less_Suc)

text \<open>
  C1 fails where the capacity check fires: with 5 cells in 8 slots, inserting the key 1 again
  finds it (position 1, \<open>False\<close>) only after a rehash to 16 slots.
\<close>

theorem emplace_duplicate_rehashes_counterexample:
  "bucket_count
     \<lparr>hash_m = \<lambda>k::nat. k, equal_m = (=),
      data_m = [FREE, DATA (1::nat), DATA 2, DATA 3, DATA 4, DATA 5, FREE, FREE],
      size_m = 5, cells_cnt_m = 5, key_from_value_m = \<lambda>v. v\<rparr> = 8
   \<and> map_option (map_sum id (\<lambda>(r, t). (r, bucket_count t, size_m t)))
       (emplace Linear
          \<lparr>hash_m = \<lambda>k::nat. k, equal_m = (=),
           data_m = [FREE, DATA (1::nat), DATA 2, DATA 3, DATA 4, DATA 5, FREE, FREE],
           size_m = 5, cells_cnt_m = 5, key_from_value_m = \<lambda>v. v\<rparr> 1)
     = Some (Inr ((1, False), 16, 5))"
  by (simp add: run_defs)

section \<open>clear\<close>

text \<open>
  C10.  For every table, whatever its capacity and contents, \<^verbatim>\<open>clear()\<close> leaves a slot array
  of exactly 8 \<^verbatim>\<open>FREE\<close> slots with \<^verbatim>\<open>size_\<close> and \<^verbatim>\<open>cells_cnt_\<close> both 0.
\<close>

theorem clear_resets_to_eight:
  "bucket_count (clear t) = 8 \<and> size_m (clear t) = 0 \<and> cells_cnt_m (clear t) = 0
     \<and> data_m (clear t) = replicate 8 FREE"
  by (simp add: clear_def bucket_count_def)

section \<open>Termination of the probe loops\<close>

text \<open>
  C3 fails for quadratic probing.  A table built with expected size 2 has 8 slots; after
  inserting 0, 8 and 16 the slots 0, 1 and 4 are taken, and these are the only slots that the
  quadratic sequence of a key hashing to a multiple of 8 ever reads: neither \<^verbatim>\<open>find\<close> nor
  \<^verbatim>\<open>emplace\<close> of the absent key 24 returns.
\<close>

theorem quadratic_find_never_returns_counterexample:
  "HashTable_range Quadratic [0, 8, 16 :: nat] (\<lambda>v. v) 2 (\<lambda>k. k) (=)
     = Some (Inr \<lparr>hash_m = \<lambda>k::nat. k, equal_m = (=),
          data_m = [DATA (0::nat), DATA 8, FREE, FREE, DATA 16, FREE, FREE, FREE],
          size_m = 3, cells_cnt_m = 3, key_from_value_m = \<lambda>v. v\<rparr>)
   \<and> find_key Quadratic \<lparr>hash_m = \<lambda>k::nat. k, equal_m = (=),
          data_m = [DATA (0::nat), DATA 8, FREE, FREE, DATA 16, FREE, FREE, FREE],
          size_m = 3, cells_cnt_m = 3, key_from_value_m = \<lambda>v. v\<rparr> 24 = None
   \<and> emplace Quadratic \<lparr>hash_m = \<lambda>k::nat. k, equal_m = (=),
          data_m = [DATA (0::nat), DATA 8, FREE, FREE, DATA 16, FREE, FREE, FREE],
          size_m = 3, cells_cnt_m = 3, key_from_value_m = \<lambda>v. v\<rparr> 24 = None"
proof (intro conjI)
  have bc: "bucket_count \<lparr>hash_m = \<lambda>k::nat. k, equal_m = (=),
          data_m = [DATA (0::nat), DATA 8, FREE, FREE, DATA 16, FREE, FREE, FREE],
          size_m = 3, cells_cnt_m = 3, key_from_value_m = \<lambda>v. v\<rparr> = 8"
    by (simp add: bucket_count_def)
  show "HashTable_range Quadratic [0, 8, 16 :: nat] (\<lambda>v. v) 2 (\<lambda>k. k) (=)
     = Some (Inr \<lparr>hash_m = \<lambda>k::nat. k, equal_m = (=),
          data_m = [DATA (0::nat), DATA 8, FREE, FREE, DATA 16, FREE, FREE, FREE],
          size_m = 3, cells_cnt_m = 3, key_from_value_m = \<lambda>v. v\<rparr>)"
    by (simp add: run_defs)
  have "(8::nat) dvd 24" by simp
  then show "find_key Quadratic \<lparr>hash_m = \<lambda>k::nat. k, equal_m = (=),
          data_m = [DATA (0::nat), DATA 8, FREE, FREE, DATA 16, FREE, FREE, FREE],
          size_m = 3, cells_cnt_m = 3, key_from_value_m = \<lambda>v. v\<rparr> 24 = None"
    by (simp add: find_key_def bc QuadraticProbing_ctor_def quad_diverges)
  have "(8::nat) dvd 0" by simp
  then show "emplace Quadratic \<lparr>hash_m = \<lambda>k::nat. k, equal_m = (=),
          data_m = [DATA (0::nat), DATA 8, FREE, FREE, DATA 16, FREE, FREE, FREE],
          size_m = 3, cells_cnt_m = 3, key_from_value_m = \<lambda>v. v\<rparr> 24 = None"
    by (simp add: emplace_def check_size_unfold exceeds_max_load_def to_float_def
        float_exp.simps bc QuadraticProbing_ctor_def quad_diverges)
qed

text \<open>
  C3, as the code has it: with linear probing.  On a table that satisfies the invariants and
  has at least one slot, \<^verbatim>\<open>emplace\<close> returns for every value (the capacity check leaves at least
  half of the slots \<^verbatim>\<open>FREE\<close>, and the linear sequence reaches every slot), \<^verbatim>\<open>find\<close> returns for
  every key as long as one slot is \<^verbatim>\<open>FREE\<close>, and \<^verbatim>\<open>rehash\<close> returns for every count below
  \<open>2 ^ 24\<close>.
\<close>

theorem linear_probing_terminates:
  assumes "table_inv t" and "0 < bucket_count t"
  shows "(\<exists>r. emplace Linear t v = Some (Inr r))
       \<and> (cells_cnt_m t < bucket_count t \<longrightarrow> (\<exists>p. find_key Linear t key = Some (Inr p)))
       \<and> (count < 2 ^ 24 \<longrightarrow> (\<exists>t'. rehash Linear count t = Some (Inr t')))"
proof (intro conjI impI)
  show "\<exists>r. emplace Linear t v = Some (Inr r)"
    using assms by (rule emplace_linear_returns)
  show "\<exists>p. find_key Linear t key = Some (Inr p)" if "cells_cnt_m t < bucket_count t"
    using assms(1) that by (rule find_linear_returns)
  show "\<exists>t'. rehash Linear count t = Some (Inr t')" if c: "count < 2 ^ 24"
  proof (cases "count = bucket_count t")
    case True
    then show ?thesis by (simp add: rehash_unfold)
  next
    case False
    have "to_float count = count" using c by (rule to_float_small)
    moreover have "count \<le> size_t_mod" using c by (simp add: size_t_mod_def)
    ultimately show ?thesis using rehash_linear [OF assms(1) False] by blast
  qed
qed

theorem linear_probing_terminates_witness:
  "(\<exists>r. emplace Linear
          \<lparr>hash_m = \<lambda>k::nat. k, equal_m = (=),
           data_m = [FREE, DATA (1::nat), DELETED, DATA 3, FREE, FREE, FREE, FREE],
           size_m = 2, cells_cnt_m = 3, key_from_value_m = \<lambda>v. v\<rparr> 9 = Some (Inr r))
   \<and> (\<exists>p. find_key Linear
          \<lparr>hash_m = \<lambda>k::nat. k, equal_m = (=),
           data_m = [FREE, DATA (1::nat), DELETED, DATA 3, FREE, FREE, FREE, FREE],
           size_m = 2, cells_cnt_m = 3, key_from_value_m = \<lambda>v. v\<rparr> 9 = Some (Inr p))
   \<and> (\<exists>t'. rehash Linear 16
          \<lparr>hash_m = \<lambda>k::nat. k, equal_m = (=),
           data_m = [FREE, DATA (1::nat), DELETED, DATA 3, FREE, FREE, FREE, FREE],
           size_m = 2, cells_cnt_m = 3, key_from_value_m = \<lambda>v. v\<rparr> = Some (Inr t'))"
  using linear_probing_terminates
    [of "\<lparr>hash_m = \<lambda>k::nat. k, equal_m = (=),
           data_m = [FREE, DATA (1::nat), DELETED, DATA 3, FREE, FREE, FREE, FREE],
           size_m = 2, cells_cnt_m = 3, key_from_value_m = \<lambda>v. v\<rparr>" 9 9 16]
  by (simp add: table_inv_def occupied_cells_def bucket_count_def)

section \<open>Load factor after an insert\<close>

text \<open>
  C4 at a failing input.  \<^verbatim>\<open>check_size\<close> compares the cell count before the insertion with half
  the slot count, so the fifth insertion into 8 slots does not rehash: afterwards
  \<^verbatim>\<open>size() == 5\<close> and \<^verbatim>\<open>bucket_count() == 8\<close>, a load factor of 0.625.
\<close>

theorem fifth_insert_exceeds_max_load_factor:
  "map_option (map_sum id (\<lambda>t. (size_m t, bucket_count t)))
     (HashTable_range Linear [1, 2, 3, 4, 5 :: nat] (\<lambda>v. v) 2 (\<lambda>k. k) (=)) = Some (Inr (5, 8))"
  by (simp add: run_defs)

section \<open>erase by key\<close>

text \<open>
  C7 at a failing input.  For an absent key the first \<^verbatim>\<open>find\<close> returns the end sentinel, and the
  do-while loop passes it to \<^verbatim>\<open>erase(const_iterator)\<close> before testing it.
\<close>

theorem erase_absent_key_past_the_end:
  "find_key Linear
     \<lparr>hash_m = \<lambda>k::nat. k, equal_m = (=),
      data_m = [FREE, DATA (1::nat), FREE, FREE, FREE, FREE, FREE, FREE],
      size_m = 1, cells_cnt_m = 1, key_from_value_m = \<lambda>v. v\<rparr> 7 = Some (Inr 8)
   \<and> erase Linear
     \<lparr>hash_m = \<lambda>k::nat. k, equal_m = (=),
      data_m = [FREE, DATA (1::nat), FREE, FREE, FREE, FREE, FREE, FREE],
      size_m = 1, cells_cnt_m = 1, key_from_value_m = \<lambda>v. v\<rparr> 7 = Some (Inl OutOfRange)"
  by (simp add: run_defs)

section \<open>Equality\<close>

text \<open>
  C8 at a failing input.  Two maps built from \<open>(1, x)\<close> and from \<open>(1, y)\<close>: \<^verbatim>\<open>operator==\<close> compares
  the sizes and looks each key of the left table up in the right one; it never compares the
  mapped values, and answers \<open>True\<close>.
\<close>

theorem maps_with_different_values_compare_equal:
  "Option.bind (HashTable_range Linear [(1::nat, ''x'')] fst 4 (\<lambda>k. k) (=))
     (\<lambda>a. case a of
            Inl e \<Rightarrow> Some (Inl e)
          | Inr lhs \<Rightarrow>
              Option.bind (HashTable_range Linear [(1::nat, ''y'')] fst 4 (\<lambda>k. k) (=))
                (\<lambda>b. case b of
                       Inl e \<Rightarrow> Some (Inl e)
                     | Inr rhs \<Rightarrow> table_equal Linear lhs rhs))
   = Some (Inr True)"
  by (simp add: run_defs)

section \<open>The scenario with expected size 4\<close>

text \<open>The claim C9 starts from 8 slots; the constructor gives 16.\<close>

theorem hint_four_capacity_counterexample:
  "map_option bucket_count (HashTable_ctor (\<lambda>v::nat. v) 4 (\<lambda>k::nat. k) (=)) = Some 16
   \<and> map_option bucket_count (HashTable_ctor (\<lambda>v::nat. v) 4 (\<lambda>k::nat. k) (=)) \<noteq> Some 8"
  by (simp add: run_defs)

text \<open>
  C9, as the code has it.  With expected size 4 the constructor allocates 16 slots.  Inserting
  up to five values with distinct keys, whatever the hash, never rehashes: the table still has
  16 slots, \<^verbatim>\<open>size_\<close> and \<^verbatim>\<open>cells_cnt_\<close> are the number of values inserted (4 after four, 5 after
  five) and the live values are the inserted ones.
\<close>

theorem hint_four_five_inserts:
  assumes "length vs \<le> 5" and "unique_keys equal (map getKV vs)"
  shows "map_option bucket_count (HashTable_ctor getKV 4 hash equal) = Some 16
       \<and> (\<exists>t. HashTable_range Linear vs getKV 4 hash equal = Some (Inr t)
              \<and> bucket_count t = 16 \<and> size_m t = length vs \<and> cells_cnt_m t = length vs
              \<and> set (live (data_m t)) = set vs)"
proof -
  define t0 where
    "t0 = \<lparr>hash_m = hash, equal_m = equal, data_m = replicate 16 FREE, size_m = 0,
           cells_cnt_m = 0, key_from_value_m = getKV\<rparr>"
  have "optimal_size (div_max_load_factor 4) = Some 16"
    by (simp add: optimal_size_def div_max_load_factor_def to_float_def float_exp.simps
        size_t_mod_def optimal_size_loop.simps)
  then have ctor: "HashTable_ctor getKV 4 hash equal = Some t0"
    by (simp add: HashTable_ctor_def t0_def)
  have f0: "hash_m t0 = hash" "equal_m t0 = equal" "key_from_value_m t0 = getKV"
    "data_m t0 = replicate 16 FREE" "size_m t0 = 0" "cells_cnt_m t0 = 0" "bucket_count t0 = 16"
    by (simp_all add: t0_def bucket_count_def)
  have b1: "cells_cnt_m t0 = occupied_cells (data_m t0)"
    by (simp add: f0 occupied_cells_replicate_FREE)
  have b2: "size_m t0 = length (live (data_m t0))" by (simp add: f0 live_replicate_FREE)
  have b3: "cells_cnt_m t0 = size_m t0" by (simp add: f0)
  have b4: "bucket_count t0 \<le> size_t_mod" by (simp add: f0 size_t_mod_def)
  have b5: "to_float (bucket_count t0) = bucket_count t0" by (simp add: f0 to_float_small)
  have b6: "size_m t0 + length vs < 2 ^ 24" using assms(1) by (simp add: f0)
  have b7: "2 * (size_m t0 + length vs) \<le> bucket_count t0" using assms(1) by (simp add: f0)
  have b8: "\<forall>w\<in>set (live (data_m t0)). \<forall>v\<in>set vs.
            \<not> equal_m t0 (key_from_value_m t0 w) (key_from_value_m t0 v)"
    by (simp add: f0 live_replicate_FREE)
  have b9: "unique_keys (equal_m t0) (map (key_from_value_m t0) vs)"
    using assms(2) by (simp add: f0)
  from insert_range_linear [OF b1 b2 b3 b4 b5 b6 b7 b8 b9]
  obtain t' where t': "insert_range Linear t0 vs = Some (Inr t')"
    "bucket_count t' = bucket_count t0" "cells_cnt_m t' = size_m t'"
    "size_m t' = size_m t0 + length vs"
    "set (live (data_m t')) = set (live (data_m t0)) \<union> set vs"
    by blast
  have "HashTable_range Linear vs getKV 4 hash equal = Some (Inr t')"
    using ctor t'(1) by (simp add: HashTable_range_def)
  moreover have "map_option bucket_count (HashTable_ctor getKV 4 hash equal) = Some 16"
    using ctor by (simp add: f0)
  ultimately show ?thesis
    using t'(2-5) by (auto simp: f0 live_replicate_FREE)
qed

theorem hint_four_five_inserts_witness:
  "map_option bucket_count (HashTable_ctor (\<lambda>v::nat. v) 4 (\<lambda>k::nat. k) (=)) = Some 16
   \<and> (\<exists>t. HashTable_range Linear [1, 2, 3, 4, 5 :: nat] (\<lambda>v. v) 4 (\<lambda>k. k) (=) = Some (Inr t)
          \<and> bucket_count t = 16 \<and> size_m t = 5 \<and> cells_cnt_m t = 5
          \<and> set (live (data_m t)) = {1, 2, 3, 4, 5})"
  using hint_four_five_inserts
    [where vs = "[1, 2, 3, 4, 5 :: nat]" and getKV = "\<lambda>v::nat. v" and hash = "\<lambda>k::nat. k"
       and equal = "(=)"]
  by (simp add: insert_commute eval_nat_numeral)

section \<open>The slot count\<close>

text \<open>
  C6 fails: the constructor with expected size 1 allocates 4 slots, and \<^verbatim>\<open>rehash(10)\<close> on a table
  of 8 slots holding one element allocates 10.
\<close>

theorem capacity_not_power_of_two_counterexample:
  "map_option bucket_count (HashTable_ctor (\<lambda>v::nat. v) 1 (\<lambda>k::nat. k) (=)) = Some 4
   \<and> map_option (map_sum id bucket_count)
       (rehash Linear 10
          \<lparr>hash_m = \<lambda>k::nat. k, equal_m = (=),
           data_m = [FREE, DATA (1::nat), FREE, FREE, FREE, FREE, FREE, FREE],
           size_m = 1, cells_cnt_m = 1, key_from_value_m = \<lambda>v. v\<rparr>) = Some (Inr 10)"
  by (simp add: run_defs)

text \<open>
  C6, as the code has it.  For an expected size \<open>h\<close> from 1 to below \<open>2 ^ 24\<close> the explicit
  constructor allocates a power of two, the least one above \<open>2 * h\<close> (so at least 4);
  \<^verbatim>\<open>reserve(h)\<close> is \<^verbatim>\<open>rehash\<close> with that same power of two; the range constructor with linear
  probing ends with that same slot count when \<open>h\<close> is below \<open>2 ^ 22\<close> and it is given at most \<open>h\<close>
  values with pairwise distinct keys.  \<^verbatim>\<open>clear\<close> allocates 8.  With linear probing, on a table
  that satisfies the invariants (which include fewer than \<open>2 ^ 24\<close> slots), the capacity check
  of an insert returns and keeps the slot count or doubles it, and \<^verbatim>\<open>rehash\<close> with a count below
  \<open>2 ^ 24\<close> that differs from the slot count does not round: the new slot count is the larger of
  the count and twice the size.
\<close>

theorem capacity_after_constructor_and_rehash:
  assumes "0 < h" and "h < 2 ^ 24"
    and "table_inv t" and "count \<noteq> bucket_count t" and "count < 2 ^ 24"
  shows "(\<exists>m. map_option bucket_count (HashTable_ctor getKV h hash equal) = Some (2 ^ m)
              \<and> 2 * h < 2 ^ m \<and> 2 ^ m \<le> 4 * h
              \<and> reserve pol h t = rehash pol (2 ^ m) t
              \<and> (h < 2 ^ 22 \<and> length vs \<le> h \<and> unique_keys equal (map getKV vs)
                    \<longrightarrow> (\<exists>t'. HashTable_range Linear vs getKV h hash equal = Some (Inr t')
                            \<and> bucket_count t' = 2 ^ m)))
       \<and> bucket_count (clear t) = 8
       \<and> (\<exists>t1. check_size Linear t = Some (Inr t1)
              \<and> (bucket_count t1 = bucket_count t \<or> bucket_count t1 = 2 * bucket_count t))
       \<and> map_option (map_sum id bucket_count) (rehash Linear count t)
           = Some (Inr (max count (2 * size_m t)))"
proof (intro conjI)
  have sz: "div_max_load_factor h = 2 * h"
    using assms(2) by (simp add: div_max_load_factor_def to_float_small)
  have "0 < 2 * h" using assms(1) by simp
  moreover have "2 * h < 2 ^ 63" using assms(2) by simp
  ultimately obtain m where m: "optimal_size (2 * h) = Some (2 ^ m)" "2 * h < 2 ^ m"
    "2 ^ m \<le> 2 * (2 * h)"
    using optimal_size_pow2 by blast
  define t0 where
    "t0 = \<lparr>hash_m = hash, equal_m = equal, data_m = replicate (2 ^ m) FREE, size_m = 0,
           cells_cnt_m = 0, key_from_value_m = getKV\<rparr>"
  have ctor: "HashTable_ctor getKV h hash equal = Some t0"
    using m(1) by (simp add: HashTable_ctor_def sz t0_def)
  have f0: "hash_m t0 = hash" "equal_m t0 = equal" "key_from_value_m t0 = getKV"
    "data_m t0 = replicate (2 ^ m) FREE" "size_m t0 = 0" "cells_cnt_m t0 = 0"
    "bucket_count t0 = 2 ^ m"
    by (simp_all add: t0_def bucket_count_def)
  have c1: "map_option bucket_count (HashTable_ctor getKV h hash equal) = Some (2 ^ m)"
    using ctor by (simp add: f0)
  have c2: "reserve pol h t = rehash pol (2 ^ m) t"
    using m(1) by (simp add: reserve_def sz)
  have c3: "\<exists>t'. HashTable_range Linear vs getKV h hash equal = Some (Inr t')
                            \<and> bucket_count t' = 2 ^ m"
    if hyp: "h < 2 ^ 22 \<and> length vs \<le> h \<and> unique_keys equal (map getKV vs)"
  proof -
    have small: "(2::nat) ^ m < 2 ^ 24" using m(3) hyp by simp
    have b1: "cells_cnt_m t0 = occupied_cells (data_m t0)"
      by (simp add: f0 occupied_cells_replicate_FREE)
    have b2: "size_m t0 = length (live (data_m t0))" by (simp add: f0 live_replicate_FREE)
    have b3: "cells_cnt_m t0 = size_m t0" by (simp add: f0)
    have b4: "bucket_count t0 \<le> size_t_mod" using small by (simp add: f0 size_t_mod_def)
    have b5: "to_float (bucket_count t0) = bucket_count t0"
      using small by (simp add: f0 to_float_small)
    have b6: "size_m t0 + length vs < 2 ^ 24" using hyp by (simp add: f0)
    have b7: "2 * (size_m t0 + length vs) \<le> bucket_count t0" using hyp m(2) by (simp add: f0)
    have b8: "\<forall>w\<in>set (live (data_m t0)). \<forall>v\<in>set vs.
              \<not> equal_m t0 (key_from_value_m t0 w) (key_from_value_m t0 v)"
      by (simp add: f0 live_replicate_FREE)
    have b9: "unique_keys (equal_m t0) (map (key_from_value_m t0) vs)"
      using hyp by (simp add: f0)
    from insert_range_linear [OF b1 b2 b3 b4 b5 b6 b7 b8 b9]
    obtain t' where "insert_range Linear t0 vs = Some (Inr t')"
      "bucket_count t' = bucket_count t0"
      by blast
    then show ?thesis using ctor by (simp add: HashTable_range_def f0)
  qed
  from c1 c2 c3 m(2,3)
  show "\<exists>m. map_option bucket_count (HashTable_ctor getKV h hash equal) = Some (2 ^ m)
              \<and> 2 * h < 2 ^ m \<and> 2 ^ m \<le> 4 * h
              \<and> reserve pol h t = rehash pol (2 ^ m) t
              \<and> (h < 2 ^ 22 \<and> length vs \<le> h \<and> unique_keys equal (map getKV vs)
                    \<longrightarrow> (\<exists>t'. HashTable_range Linear vs getKV h hash equal = Some (Inr t')
                            \<and> bucket_count t' = 2 ^ m))"
    by (intro exI [of _ m]) simp
next
  show "bucket_count (clear t) = 8" by (simp add: clear_def bucket_count_def)
next
  show "\<exists>t1. check_size Linear t = Some (Inr t1)
              \<and> (bucket_count t1 = bucket_count t \<or> bucket_count t1 = 2 * bucket_count t)"
    using check_size_linear [OF assms(3)] by blast
next
  have "to_float count = count" using assms(5) by (rule to_float_small)
  moreover have "count \<le> size_t_mod" using assms(5) by (simp add: size_t_mod_def)
  ultimately obtain t' where "rehash Linear count t = Some (Inr t')"
    "bucket_count t' = max count (2 * size_m t)"
    using rehash_linear [OF assms(3,4)] by blast
  then show "map_option (map_sum id bucket_count) (rehash Linear count t)
           = Some (Inr (max count (2 * size_m t)))"
    by simp
qed

theorem capacity_after_constructor_and_rehash_witness:
  "(\<exists>m. map_option bucket_count (HashTable_ctor (\<lambda>v::nat. v) 3 (\<lambda>k::nat. k) (=)) = Some (2 ^ m)
        \<and> 2 * 3 < (2::nat) ^ m \<and> (2::nat) ^ m \<le> 4 * 3
        \<and> (\<exists>t'. HashTable_range Linear [1, 2, 3 :: nat] (\<lambda>v. v) 3 (\<lambda>k. k) (=) = Some (Inr t')
               \<and> bucket_count t' = 2 ^ m))
   \<and> map_option (map_sum id bucket_count)
        (rehash Linear 10
           \<lparr>hash_m = \<lambda>k::nat. k, equal_m = (=),
            data_m = [FREE, DATA (1::nat), DELETED, DATA 3, FREE, FREE, FREE, FREE],
            size_m = 2, cells_cnt_m = 3, key_from_value_m = \<lambda>v. v\<rparr>) = Some (Inr 10)"
proof -
  let ?T = "\<lparr>hash_m = \<lambda>k::nat. k, equal_m = (=),
            data_m = [FREE, DATA (1::nat), DELETED, DATA 3, FREE, FREE, FREE, FREE],
            size_m = 2, cells_cnt_m = 3, key_from_value_m = \<lambda>v. v\<rparr>"
  have inv: "table_inv ?T"
    by (simp add: table_inv_def occupied_cells_def bucket_count_def)
  have ne: "10 \<noteq> bucket_count ?T"
    by (simp add: bucket_count_def)
  have hyp: "(3::nat) < 2 ^ 22 \<and> length [1, 2, 3 :: nat] \<le> 3
               \<and> unique_keys (=) (map (\<lambda>v. v) [1, 2, 3 :: nat])"
    by simp
  from capacity_after_constructor_and_rehash
    [where h = 3 and count = 10 and getKV = "\<lambda>v::nat. v" and hash = "\<lambda>k::nat. k"
       and equal = "(=)" and vs = "[1, 2, 3 :: nat]" and pol = Linear, OF _ _ inv ne]
  have "(\<exists>m. map_option bucket_count (HashTable_ctor (\<lambda>v::nat. v) 3 (\<lambda>k::nat. k) (=))
               = Some (2 ^ m)
              \<and> 2 * 3 < (2::nat) ^ m \<and> (2::nat) ^ m \<le> 4 * 3
              \<and> reserve Linear 3 ?T = rehash Linear (2 ^ m) ?T
              \<and> ((3::nat) < 2 ^ 22 \<and> length [1, 2, 3 :: nat] \<le> 3
                    \<and> unique_keys (=) (map (\<lambda>v. v) [1, 2, 3 :: nat])
                    \<longrightarrow> (\<exists>t'. HashTable_range Linear [1, 2, 3 :: nat] (\<lambda>v. v) 3 (\<lambda>k. k) (=)
                               = Some (Inr t')
                            \<and> bucket_count t' = 2 ^ m)))
       \<and> map_option (map_sum id bucket_count) (rehash Linear 10 ?T)
           = Some (Inr (max 10 (2 * size_m ?T)))"
    by simp
  with hyp show ?thesis by auto
qed

section \<open>rehash\<close>

text \<open>
  C5 fails when the requested count is the current slot count: \<^verbatim>\<open>rehash\<close> returns at once, the
  tombstone stays and \<^verbatim>\<open>cells_cnt_\<close> differs from \<^verbatim>\<open>size_\<close>.
\<close>

theorem rehash_same_capacity_keeps_tombstone_counterexample:
  "rehash Linear 8
     \<lparr>hash_m = \<lambda>k::nat. k, equal_m = (=),
      data_m = [FREE, DELETED :: nat Element, FREE, FREE, FREE, FREE, FREE, FREE],
      size_m = 0, cells_cnt_m = 1, key_from_value_m = \<lambda>v. v\<rparr>
   = Some (Inr \<lparr>hash_m = \<lambda>k::nat. k, equal_m = (=),
      data_m = [FREE, DELETED :: nat Element, FREE, FREE, FREE, FREE, FREE, FREE],
      size_m = 0, cells_cnt_m = 1, key_from_value_m = \<lambda>v. v\<rparr>)"
  by (simp add: run_defs)

text \<open>
  C5, as the code has it: for a table that satisfies the invariants and a count below \<open>2 ^ 24\<close>
  that differs from the current slot count, whatever \<^verbatim>\<open>rehash\<close> returns is a table with the same
  set of live values and the same \<^verbatim>\<open>size_\<close>, no \<^verbatim>\<open>DELETED\<close> slot, \<^verbatim>\<open>cells_cnt_\<close> equal to \<^verbatim>\<open>size_\<close>, and
  as many slots as the larger of the count and twice the size; with linear probing it does
  return.  With the current slot count it returns the table as it is.
\<close>

theorem rehash_preserves_live_values:
  assumes "table_inv t" and "count < 2 ^ 24"
  shows "(count \<noteq> bucket_count t \<longrightarrow>
           (\<forall>r. rehash pol count t = Some r \<longrightarrow>
              (\<exists>t'. r = Inr t'
                 \<and> set (live (data_m t')) = set (live (data_m t))
                 \<and> size_m t' = size_m t
                 \<and> DELETED \<notin> set (data_m t')
                 \<and> cells_cnt_m t' = size_m t'
                 \<and> bucket_count t' = max count (2 * size_m t)))
           \<and> (\<exists>r. rehash Linear count t = Some r))
       \<and> (count = bucket_count t \<longrightarrow> rehash pol count t = Some (Inr t))"
proof (intro conjI impI allI)
  fix r assume ne: "count \<noteq> bucket_count t" and res: "rehash pol count t = Some r"
  have "to_float count = count" using assms(2) by (rule to_float_small)
  from rehash_partial [OF res assms(1) ne this]
  show "\<exists>t'. r = Inr t'
                 \<and> set (live (data_m t')) = set (live (data_m t))
                 \<and> size_m t' = size_m t
                 \<and> DELETED \<notin> set (data_m t')
                 \<and> cells_cnt_m t' = size_m t'
                 \<and> bucket_count t' = max count (2 * size_m t)"
    by blast
next
  assume ne: "count \<noteq> bucket_count t"
  have "to_float count = count" using assms(2) by (rule to_float_small)
  moreover have "count \<le> size_t_mod" using assms(2) by (simp add: size_t_mod_def)
  ultimately show "\<exists>r. rehash Linear count t = Some r"
    using rehash_linear [OF assms(1) ne] by blast
next
  assume "count = bucket_count t"
  then show "rehash pol count t = Some (Inr t)" by (simp add: rehash_unfold)
qed

theorem rehash_preserves_live_values_witness:
  "\<exists>t'. rehash Linear 16
          \<lparr>hash_m = \<lambda>k::nat. k, equal_m = (=),
           data_m = [FREE, DATA (1::nat), DELETED, DATA 3, FREE, FREE, FREE, FREE],
           size_m = 2, cells_cnt_m = 3, key_from_value_m = \<lambda>v. v\<rparr> = Some (Inr t')
      \<and> set (live (data_m t')) = {1, 3}
      \<and> size_m t' = 2
      \<and> DELETED \<notin> set (data_m t')
      \<and> cells_cnt_m t' = size_m t'
      \<and> bucket_count t' = 16"
  using rehash_preserves_live_values
    [of "\<lparr>hash_m = \<lambda>k::nat. k, equal_m = (=),
           data_m = [FREE, DATA (1::nat), DELETED, DATA 3, FREE, FREE, FREE, FREE],
           size_m = 2, cells_cnt_m = 3, key_from_value_m = \<lambda>v. v\<rparr>" 16 Linear]
  by (auto simp: table_inv_def occupied_cells_def bucket_count_def insert_commute)

end
